theory Spec2Isabelle
  imports
    Complex_Main
    "HOL-Library.Word"
    "HOL-Library.Char_ord"
    "HOL-Library.List_Lexorder"
    "HOL-Library.Multiset"
    "HOL-Library.Log_Nat"
begin

unbundle bit_operations_syntax

section \<open>Numbers of the host language\<close>

text \<open>
  The generator script computes with IEEE binary64 numbers. Three kinds of number occur:
  non-negative integers (the generator's counter, array lengths and indices), 32-bit
  integers (the operands of \<open>^\<close>, \<open>|\<close>, \<open>>>>\<close> and \<open>Math.imul\<close>), and the values in
  \<open>[0,1)\<close> that a random source returns.

  A non-negative integer is a \<open>nat\<close>; an arithmetic result that may need more than 53
  significant bits is rounded to the nearest binary64 value, ties to even, by
  \<open>round53\<close>. A 32-bit integer is a \<open>32 word\<close>. A binary64 value in \<open>[0,1)\<close> is a pair
  \<open>(m, k)\<close> standing for \<open>unat m / 2 ^ (53 + k)\<close>: every such binary64 value has this form
  with \<open>k \<le> 1021\<close>, and every pair denotes a number below 1, so the contract of a random
  source (values in \<open>[0,1)\<close>) is part of the type.
\<close>

definition round53 :: "nat \<Rightarrow> nat" where
  "round53 p =
     (if p < 2 ^ 53 then p
      else let k = floorlog 2 p - 53;
               q = p div 2 ^ k;
               r = p mod 2 ^ k;
               h = 2 ^ (k - 1)
           in (if h < r \<or> (r = h \<and> odd q) then q + 1 else q) * 2 ^ k)"

type_synonym unit_double = "53 word \<times> nat"

text \<open>\<open>Math.floor(r * n)\<close> for \<open>r\<close> in \<open>[0,1)\<close> and a non-negative integer \<open>n\<close>: the product
  is rounded to binary64 before the floor is taken.\<close>

definition floor_times :: "unit_double \<Rightarrow> nat \<Rightarrow> nat" where
  "floor_times d n = (case d of (m, k) \<Rightarrow> round53 (unat m * n) div 2 ^ (53 + k))"

section \<open>Seeding: \<open>stringToSeed\<close> and \<open>mulberry32\<close>\<close>

text \<open>\<open>seed = (seed * 31 + value.charCodeAt(i)) >>> 0\<close>: the operand stays below
  \<open>2 ^ 37 + 2 ^ 16\<close>, so the binary64 arithmetic is exact and \<open>>>> 0\<close> is \<open>mod 2 ^ 32\<close>.\<close>

fun stringToSeed_loop :: "string \<Rightarrow> nat \<Rightarrow> nat" where
  "stringToSeed_loop [] seed = seed"
| "stringToSeed_loop (c # cs) seed =
     stringToSeed_loop cs ((seed * 31 + of_char c) mod 2 ^ 32)"

definition stringToSeed :: "string \<Rightarrow> nat" where
  "stringToSeed v = stringToSeed_loop v 0"

text \<open>
  \<open>mulberry32(seed)\<close> returns a closure over the mutable variable \<open>seed\<close>. The closure is
  modelled by its step function on that variable: one call maps the variable's value to
  the returned number and the variable's new value. \<open>seed += 0x6d2b79f5\<close> is a binary64
  addition (hence \<open>round53\<close>); the bit operations read their operand modulo \<open>2 ^ 32\<close>.
\<close>

definition mulberry32 :: "nat \<Rightarrow> unit_double \<times> nat" where
  "mulberry32 seed =
     (let seed' = round53 (seed + 0x6d2b79f5);
          t0 = (word_of_nat seed' :: 32 word);
          t1 = (t0 XOR drop_bit 15 t0) * (t0 OR 1);
          t2 = t1 XOR (t1 + (t1 XOR drop_bit 7 t1) * (t1 OR 61));
          u = t2 XOR drop_bit 14 t2
      in ((word_of_nat (unat u * 2 ^ 21), 0), seed'))"

section \<open>\<open>sortedLetters\<close> and \<open>shuffled\<close>\<close>

text \<open>Words are strings of ASCII letters; the default \<open>sort()\<close> orders characters by
  code and strings lexicographically by code, which is the order of \<^typ>\<open>char\<close> and of
  \<^typ>\<open>string\<close> here.\<close>

definition sortedLetters :: "string \<Rightarrow> string" where
  "sortedLetters word = sort word"

text \<open>\<open>[copy[i], copy[j]] = [copy[j], copy[i]]\<close>\<close>

definition swap :: "'a list \<Rightarrow> nat \<Rightarrow> nat \<Rightarrow> 'a list" where
  "swap copy i j = copy[i := copy ! j, j := copy ! i]"

text \<open>The loop \<open>for (let i = copy.length - 1; i > 0; i -= 1)\<close>, with the random source as
  a step function \<open>random\<close> on its state \<open>g\<close>.\<close>

fun shuffle_loop ::
  "('g \<Rightarrow> unit_double \<times> 'g) \<Rightarrow> 'a list \<Rightarrow> nat \<Rightarrow> 'g \<Rightarrow> 'a list \<times> 'g" where
  "shuffle_loop random copy 0 g = (copy, g)"
| "shuffle_loop random copy (Suc i') g =
     (let (r, g') = random g;
          j = floor_times r (Suc i' + 1)
      in shuffle_loop random (swap copy (Suc i') j) i' g')"

definition shuffled ::
  "'a list \<Rightarrow> ('g \<Rightarrow> unit_double \<times> 'g) \<Rightarrow> 'g \<Rightarrow> 'a list \<times> 'g" where
  "shuffled items random g = shuffle_loop random items (length items - 1) g"

text \<open>
  The same function over a store of array objects, to speak about the caller's array:
  an array reference is a position in the store, \<open>[...items]\<close> allocates a new array at
  the end of the store, and the swaps are writes to that new array.
\<close>

type_synonym 'a store = "'a list list"

definition spread :: "'a store \<Rightarrow> nat \<Rightarrow> nat \<times> 'a store" where
  "spread h items = (length h, h @ [h ! items])"

fun shuffle_loop_store ::
  "('g \<Rightarrow> unit_double \<times> 'g) \<Rightarrow> 'a store \<Rightarrow> nat \<Rightarrow> nat \<Rightarrow> 'g \<Rightarrow> 'a store \<times> 'g" where
  "shuffle_loop_store random h copy 0 g = (h, g)"
| "shuffle_loop_store random h copy (Suc i') g =
     (let (r, g') = random g;
          j = floor_times r (Suc i' + 1)
      in shuffle_loop_store random (h[copy := swap (h ! copy) (Suc i') j]) copy i' g')"

definition shuffled_store ::
  "'a store \<Rightarrow> nat \<Rightarrow> ('g \<Rightarrow> unit_double \<times> 'g) \<Rightarrow> 'g \<Rightarrow> nat \<times> 'a store \<times> 'g" where
  "shuffled_store h items random g =
     (let (copy, h1) = spread h items;
          (h2, g') = shuffle_loop_store random h1 copy (length (h1 ! copy) - 1) g
      in (copy, h2, g'))"

section \<open>The engine: buckets, reachability, solvability, chain search\<close>

text \<open>
  \<open>buildEngine\<close> first normalizes the raw entries. A raw entry is a string or some other
  value. The strings considered are those of code units below 256 (Latin-1), the type
  \<^typ>\<open>string\<close>. On these, \<open>trim\<close> removes the white-space and line-terminator characters at
  both ends: the codes 9 to 13, 32 and 160. \<open>toUpperCase\<close> maps \<open>a\<close>..\<open>z\<close> and the
  accented small letters to their capitals, the sharp s (223) to \<open>SS\<close>, the micro sign
  (181) to U+039C and the y with diaeresis (255) to U+0178; as the last two leave the
  range of \<^typ>\<open>char\<close>, the upper-cased string is a list of code units.
\<close>

datatype raw_entry = Str string | NotAString

definition isWhiteSpace :: "char \<Rightarrow> bool" where
  "isWhiteSpace c \<longleftrightarrow> of_char c \<in> {9, 10, 11, 12, 13, 32, 160 :: nat}"

definition trim :: "string \<Rightarrow> string" where
  "trim s = rev (dropWhile isWhiteSpace (rev (dropWhile isWhiteSpace s)))"

definition upperChar :: "char \<Rightarrow> nat list" where
  "upperChar c =
     (let n = of_char c
      in if 97 \<le> n \<and> n \<le> 122 then [n - 32]
         else if n = 181 then [924]
         else if n = 223 then [83, 83]
         else if 224 \<le> n \<and> n \<le> 254 \<and> n \<noteq> 247 then [n - 32]
         else if n = 255 then [376]
         else [n])"

definition toUpperCase :: "string \<Rightarrow> nat list" where
  "toUpperCase s = concat (map upperChar s)"

text \<open>\<open>/^[A-Z]{3,7}$/.test(word)\<close>\<close>

definition isWord :: "nat list \<Rightarrow> bool" where
  "isWord word \<longleftrightarrow>
     3 \<le> length word \<and> length word \<le> 7 \<and> (\<forall>c \<in> set word. 65 \<le> c \<and> c \<le> 90)"

text \<open>A \<open>Set\<close> is kept as the list of its elements in insertion order.\<close>

definition set_add :: "'a list \<Rightarrow> 'a \<Rightarrow> 'a list" where
  "set_add s x = (if x \<in> set s then s else s @ [x])"

definition new_Set :: "'a list \<Rightarrow> 'a list" where
  "new_Set xs = fold (\<lambda>x s. set_add s x) xs []"

text \<open>The entries that pass the test consist of the letters \<open>A\<close>..\<open>Z\<close>; from here on they
  are kept as values of \<^typ>\<open>string\<close> again.\<close>

definition word_string :: "nat list \<Rightarrow> string" where
  "word_string word = map char_of word"

definition normalize :: "raw_entry list \<Rightarrow> string list" where
  "normalize words =
     map word_string
       (new_Set
         (filter isWord
           (map (\<lambda>word. toUpperCase (trim word))
             (concat (map (\<lambda>e. case e of Str word \<Rightarrow> [word] | NotAString \<Rightarrow> []) words)))))"

type_synonym buckets = "string \<rightharpoonup> string list"

definition bucket_push :: "buckets \<Rightarrow> string \<Rightarrow> buckets" where
  "bucket_push buckets word =
     (let key = sortedLetters word
      in buckets(key \<mapsto> (case buckets key of None \<Rightarrow> [] | Some ws \<Rightarrow> ws) @ [word]))"

definition buildBuckets :: "string list \<Rightarrow> buckets" where
  "buildBuckets dictionary = fold (\<lambda>word buckets. bucket_push buckets word) dictionary Map.empty"

text \<open>\<open>buckets.get(signature) ?? []\<close>\<close>

definition bucket_get :: "buckets \<Rightarrow> string \<Rightarrow> string list" where
  "bucket_get buckets signature = (case buckets signature of None \<Rightarrow> [] | Some ws \<Rightarrow> ws)"

text \<open>The two caches of the engine are its mutable state.\<close>

record engine_state =
  nextWordCache :: "string \<rightharpoonup> string list"
  solvableMemo :: "string \<rightharpoonup> bool"

definition empty_state :: engine_state where
  "empty_state = \<lparr>nextWordCache = Map.empty, solvableMemo = Map.empty\<rparr>"

text \<open>One round of the loop over the deletion positions \<open>i\<close> in \<open>getNextWords\<close>.\<close>

definition deletion_step ::
  "buckets \<Rightarrow> string \<Rightarrow> nat \<Rightarrow> string list \<times> string list \<Rightarrow> string list \<times> string list" where
  "deletion_step buckets sorted_w i acc =
     (case acc of (seenSignatures, candidates) \<Rightarrow>
        let signature = take i sorted_w @ drop (i + 1) sorted_w
        in if signature \<in> set seenSignatures then (seenSignatures, candidates)
           else (set_add seenSignatures signature,
                 fold (\<lambda>candidate cs. set_add cs candidate)
                   (bucket_get buckets signature) candidates))"

text \<open>The part of \<open>getNextWords\<close> after the cache lookup.\<close>

definition computeNextWords :: "buckets \<Rightarrow> string \<Rightarrow> string list" where
  "computeNextWords buckets word =
     (if length word \<le> 3 then []
      else let sorted_w = sortedLetters word;
               (seenSignatures, candidates) =
                 fold (deletion_step buckets sorted_w) [0..<length sorted_w] ([], [])
           in sort candidates)"

definition getNextWords :: "buckets \<Rightarrow> engine_state \<Rightarrow> string \<Rightarrow> string list \<times> engine_state" where
  "getNextWords buckets s word =
     (case nextWordCache s word of
        Some cached \<Rightarrow> (cached, s)
      | None \<Rightarrow>
          let result = computeNextWords buckets word
          in (result, s\<lparr>nextWordCache := (nextWordCache s)(word \<mapsto> result)\<rparr>))"

text \<open>
  \<open>isSolvable\<close> and the \<open>dfs\<close> of \<open>buildChain\<close> recurse through whatever \<open>getNextWords\<close>
  returns, cached lists included, so over arbitrary cache contents they need not return:
  they are partial functions, \<open>None\<close> meaning that the call does not return. The loop
  over the next words is a function of its own, taking the recursive call as \<open>f\<close>.
\<close>

fun solvable_loop ::
  "(engine_state \<Rightarrow> string \<Rightarrow> (bool \<times> engine_state) option) \<Rightarrow> string \<Rightarrow> engine_state \<Rightarrow>
   string list \<Rightarrow> (bool \<times> engine_state) option" where
  "solvable_loop f word s [] =
     Some (False, s\<lparr>solvableMemo := (solvableMemo s)(word \<mapsto> False)\<rparr>)"
| "solvable_loop f word s (nextWord # rest) =
     Option.bind (f s nextWord) (\<lambda>(ok, s').
       if ok then Some (True, s'\<lparr>solvableMemo := (solvableMemo s')(word \<mapsto> True)\<rparr>)
       else solvable_loop f word s' rest)"

lemma solvable_loop_mono [partial_function_mono]:
  assumes "\<And>s w. mono_option (\<lambda>f. F f s w)"
  shows "mono_option (\<lambda>f. solvable_loop (F f) word s ws)"
  by (induction ws arbitrary: s) (auto intro!: partial_function_mono assms)

partial_function (option) isSolvable ::
  "buckets \<Rightarrow> engine_state \<Rightarrow> string \<Rightarrow> (bool \<times> engine_state) option" where
  "isSolvable buckets s word =
     (if length word = 3 then Some (True, s)
      else case solvableMemo s word of
             Some known \<Rightarrow> Some (known, s)
           | None \<Rightarrow>
               (case getNextWords buckets s word of (nextWords, s1) \<Rightarrow>
                  solvable_loop (isSolvable buckets) word s1 nextWords))"

fun chain_loop ::
  "('st \<Rightarrow> string \<Rightarrow> (string list option \<times> 'st) option) \<Rightarrow> string \<Rightarrow> 'st \<Rightarrow>
   string list \<Rightarrow> (string list option \<times> 'st) option" where
  "chain_loop f word st [] = Some (None, st)"
| "chain_loop f word st (nextWord # rest) =
     Option.bind (f st nextWord) (\<lambda>(tail, st').
       case tail of Some t \<Rightarrow> Some (Some (word # t), st')
                  | None \<Rightarrow> chain_loop f word st' rest)"

lemma chain_loop_mono [partial_function_mono]:
  assumes "\<And>st w. mono_option (\<lambda>f. F f st w)"
  shows "mono_option (\<lambda>f. chain_loop (F f) word st ws)"
proof (induction ws arbitrary: st)
  case Nil
  show ?case by (simp add: option.const_mono)
next
  case (Cons w ws)
  have "mono_option (\<lambda>f. case tail of Some t \<Rightarrow> Some (Some (word # t), st')
                              | None \<Rightarrow> chain_loop (F f) word st' ws)" for tail st'
    by (cases tail) (simp_all add: option.const_mono Cons.IH)
  then show ?case
    by (auto intro!: partial_function_mono assms)
qed

text \<open>The state of a chain search is the engine's caches and the random source's state.\<close>

partial_function (option) dfs ::
  "buckets \<Rightarrow> ('g \<Rightarrow> unit_double \<times> 'g) \<Rightarrow> engine_state \<times> 'g \<Rightarrow> string \<Rightarrow>
   (string list option \<times> engine_state \<times> 'g) option" where
  "dfs buckets random st word =
     (if length word = 3 then Some (Some [word], st)
      else case st of (s, g) \<Rightarrow>
           case getNextWords buckets s word of (nextWords, s1) \<Rightarrow>
           case shuffled nextWords random g of (orderedCandidates, g1) \<Rightarrow>
             chain_loop (dfs buckets random) word (s1, g1) orderedCandidates)"

definition buildChain ::
  "buckets \<Rightarrow> engine_state \<Rightarrow> string \<Rightarrow> ('g \<Rightarrow> unit_double \<times> 'g) \<Rightarrow> 'g \<Rightarrow>
   (string list option \<times> engine_state \<times> 'g) option" where
  "buildChain buckets s startWord random g = dfs buckets random (s, g) startWord"

declare isSolvable.simps [code] dfs.simps [code]

text \<open>
  The rest of \<open>buildEngine\<close>: the 7-letter words are filtered through \<open>isSolvable\<close>
  (which fills the caches) and sorted; an empty result is the error
  \<open>No solvable 7-letter words found\<close>. The returned object holds the dictionary, the
  valid start words and the closure \<open>buildChain\<close>, whose environment is the buckets and
  the caches.
\<close>

datatype error =
    NoSolvableWords
  | ChainFailed string string
  | TypeError

record engine =
  dictionary :: "string list"
  validSevenLetterWords :: "string list"
  closure_buckets :: buckets

fun filter_solvable ::
  "buckets \<Rightarrow> engine_state \<Rightarrow> string list \<Rightarrow> (string list \<times> engine_state) option" where
  "filter_solvable bk s [] = Some ([], s)"
| "filter_solvable bk s (word # rest) =
     Option.bind (isSolvable bk s word) (\<lambda>(ok, s1).
       Option.bind (filter_solvable bk s1 rest) (\<lambda>(kept, s2).
         Some (if ok then word # kept else kept, s2)))"

definition buildEngine :: "raw_entry list \<Rightarrow> (error + engine \<times> engine_state) option" where
  "buildEngine raw_words =
     (let dict = normalize raw_words;
          bk = buildBuckets dict
      in Option.bind
           (filter_solvable bk empty_state (filter (\<lambda>word. length word = 7) dict))
           (\<lambda>(kept, s).
              let valid = sort kept
              in if valid = [] then Some (Inl NoSolvableWords)
                 else Some (Inr (\<lparr>dictionary = dict, validSevenLetterWords = valid,
                                  closure_buckets = bk\<rparr>, s))))"

section \<open>Dates\<close>

text \<open>
  \<open>generatePuzzles\<close> copies the start date, calls \<open>setDate\<close> on the copy and reads
  \<open>getFullYear\<close>, \<open>getMonth\<close> and \<open>getDate\<close>, all in the local time of the host. A \<open>Date\<close>
  holds a time value: a whole number of milliseconds since the epoch, at most
  \<open>8.64 * 10 ^ 15\<close> in absolute value, or \<open>NaN\<close>. A time value, and every number read from
  a date, is an \<^typ>\<open>int option\<close> here, \<open>None\<close> standing for \<open>NaN\<close>. The functions of this
  section are those of the same names in the definition of the host language (ECMA-262,
  Date objects). Their integer arithmetic is written without rounding: binary64 is exact
  below \<open>2 ^ 53\<close>, and a result beyond that is beyond the limit of \<open>TimeClip\<close> whether rounded
  or not, the offsets of a time zone being small against the difference of the two.
\<close>

definition msPerDay :: int where
  "msPerDay = 86400000"

definition Day :: "int \<Rightarrow> int" where
  "Day t = t div msPerDay"

definition TimeWithinDay :: "int \<Rightarrow> int" where
  "TimeWithinDay t = t mod msPerDay"

definition DaysInYear :: "int \<Rightarrow> int" where
  "DaysInYear y =
     (if y mod 4 \<noteq> 0 then 365
      else if y mod 100 \<noteq> 0 then 366
      else if y mod 400 \<noteq> 0 then 365
      else 366)"

definition DayFromYear :: "int \<Rightarrow> int" where
  "DayFromYear y =
     365 * (y - 1970) + (y - 1969) div 4 - (y - 1901) div 100 + (y - 1601) div 400"

definition TimeFromYear :: "int \<Rightarrow> int" where
  "TimeFromYear y = msPerDay * DayFromYear y"

text \<open>
  \<open>YearFromTime t\<close> is the largest year \<open>y\<close> with \<open>TimeFromYear y \<le> t\<close>. It is found by
  stepping down from an estimate until \<open>TimeFromYear y \<le> t\<close> and then up while
  \<open>TimeFromYear (y + 1) \<le> t\<close>; both searches end because \<open>TimeFromYear\<close> is strictly
  increasing.
\<close>

lemma div_step:
  fixes x :: int
  assumes "0 < n"
  shows "(x + 1) div n = x div n + (if (x + 1) mod n = 0 then 1 else 0)"
proof -
  define q where "q = x div n"
  define r where "r = x mod n"
  have x: "x = n * q + r" by (simp add: q_def r_def)
  have r: "0 \<le> r" "r < n" using assms by (simp_all add: r_def)
  show ?thesis
  proof (cases "r + 1 = n")
    case True
    have e: "x + 1 = n * (q + 1) + 0" using x True by (simp add: algebra_simps)
    have "(x + 1) div n = q + 1" by (rule int_div_pos_eq [OF e]) (use assms in simp_all)
    moreover have "(x + 1) mod n = 0" by (rule int_mod_pos_eq [OF e]) (use assms in simp_all)
    ultimately show ?thesis by (simp add: q_def)
  next
    case False
    with r have r1: "0 \<le> r + 1" "r + 1 < n" by simp_all
    have e: "x + 1 = n * q + (r + 1)" using x by simp
    have "(x + 1) div n = q" by (rule int_div_pos_eq [OF e r1])
    moreover have "(x + 1) mod n = r + 1" by (rule int_mod_pos_eq [OF e r1])
    ultimately show ?thesis using r by (simp add: q_def)
  qed
qed

lemma mod_shift:
  fixes y :: int
  shows "(y - n * k) mod n = y mod n"
  by (metis mod_mult_self4 add.commute diff_add_cancel)

lemma DayFromYear_step: "DayFromYear (y + 1) = DayFromYear y + DaysInYear y"
proof -
  have m4: "(y - 1969 + 1) mod 4 = y mod 4"
    using mod_shift [of y 4 492] by simp
  have m100: "(y - 1901 + 1) mod 100 = y mod 100"
    using mod_shift [of y 100 19] by simp
  have m400: "(y - 1601 + 1) mod 400 = y mod 400"
    using mod_shift [of y 400 4] by simp
  have 4: "(y + 1 - 1969) div 4 = (y - 1969) div 4 + (if y mod 4 = 0 then 1 else 0)"
    using div_step [of 4 "y - 1969"] unfolding m4 by (simp add: algebra_simps)
  have 100: "(y + 1 - 1901) div 100 = (y - 1901) div 100 + (if y mod 100 = 0 then 1 else 0)"
    using div_step [of 100 "y - 1901"] unfolding m100 by (simp add: algebra_simps)
  have 400: "(y + 1 - 1601) div 400 = (y - 1601) div 400 + (if y mod 400 = 0 then 1 else 0)"
    using div_step [of 400 "y - 1601"] unfolding m400 by (simp add: algebra_simps)
  have a: "y mod 4 = 0" if "y mod 100 = 0"
  proof -
    from that have "100 dvd y" by (simp add: dvd_eq_mod_eq_0)
    moreover have "(4 :: int) dvd 100" by simp
    ultimately have "4 dvd y" by (rule dvd_trans [rotated])
    then show ?thesis by (simp add: dvd_eq_mod_eq_0)
  qed
  have b: "y mod 100 = 0" if "y mod 400 = 0"
  proof -
    from that have "400 dvd y" by (simp add: dvd_eq_mod_eq_0)
    moreover have "(100 :: int) dvd 400" by simp
    ultimately have "100 dvd y" by (rule dvd_trans [rotated])
    then show ?thesis by (simp add: dvd_eq_mod_eq_0)
  qed
  show ?thesis
  proof (cases "y mod 4 = 0")
    case False
    with a have n100: "y mod 100 \<noteq> 0" by auto
    with b have "y mod 400 \<noteq> 0" by auto
    with False n100 show ?thesis
      unfolding DayFromYear_def DaysInYear_def 4 100 400 by simp
  next
    case y4: True
    show ?thesis
    proof (cases "y mod 100 = 0")
      case False
      with b have "y mod 400 \<noteq> 0" by auto
      with y4 False show ?thesis
        unfolding DayFromYear_def DaysInYear_def 4 100 400 by simp
    next
      case True
      with y4 show ?thesis
        unfolding DayFromYear_def DaysInYear_def 4 100 400 by simp
    qed
  qed
qed


lemma DaysInYear_pos: "0 < DaysInYear y"
  by (simp add: DaysInYear_def)

lemma DayFromYear_less: "DayFromYear (y - 1) < DayFromYear y"
  using DayFromYear_step [of "y - 1"] DaysInYear_pos [of "y - 1"] by simp

lemma TimeFromYear_less: "TimeFromYear (y - 1) < TimeFromYear y"
  using DayFromYear_less [of y] by (simp add: TimeFromYear_def msPerDay_def)

lemma TimeFromYear_less_next: "TimeFromYear y < TimeFromYear (y + 1)"
  using TimeFromYear_less [of "y + 1"] by simp

function year_down :: "int \<Rightarrow> int \<Rightarrow> int" where
  "year_down t y = (if t < TimeFromYear y then year_down t (y - 1) else y)"
  by pat_completeness auto
termination
proof (relation "measure (\<lambda>(t, y). nat (TimeFromYear y - t))")
  show "wf (measure (\<lambda>(t, y). nat (TimeFromYear y - t)))" by simp
next
  fix t y :: int
  assume "t < TimeFromYear y"
  with TimeFromYear_less [of y]
  show "((t, y - 1), (t, y)) \<in> measure (\<lambda>(t, y). nat (TimeFromYear y - t))"
    by simp
qed

function year_up :: "int \<Rightarrow> int \<Rightarrow> int" where
  "year_up t y = (if TimeFromYear (y + 1) \<le> t then year_up t (y + 1) else y)"
  by pat_completeness auto
termination
proof (relation "measure (\<lambda>(t, y). nat (t + 1 - TimeFromYear (y + 1)))")
  show "wf (measure (\<lambda>(t, y). nat (t + 1 - TimeFromYear (y + 1))))" by simp
next
  fix t y :: int
  assume "TimeFromYear (y + 1) \<le> t"
  with TimeFromYear_less_next [of "y + 1"]
  show "((t, y + 1), (t, y)) \<in> measure (\<lambda>(t, y). nat (t + 1 - TimeFromYear (y + 1)))"
    by simp
qed

declare year_down.simps [simp del] year_up.simps [simp del]

definition YearFromTime :: "int \<Rightarrow> int" where
  "YearFromTime t = year_up t (year_down t (1970 + (400 * Day t) div 146097))"

text \<open>\<open>InLeapYear\<close>, \<open>DayWithinYear\<close>, \<open>MonthFromTime\<close> and \<open>DateFromTime\<close> as tabulated in
  the language definition.\<close>

definition InLeapYear :: "int \<Rightarrow> int" where
  "InLeapYear t = (if DaysInYear (YearFromTime t) = 366 then 1 else 0)"

definition DayWithinYear :: "int \<Rightarrow> int" where
  "DayWithinYear t = Day t - DayFromYear (YearFromTime t)"

definition MonthFromTime :: "int \<Rightarrow> int" where
  "MonthFromTime t =
     (let d = DayWithinYear t; leap = InLeapYear t
      in if d < 31 then 0
         else if d < 59 + leap then 1
         else if d < 90 + leap then 2
         else if d < 120 + leap then 3
         else if d < 151 + leap then 4
         else if d < 181 + leap then 5
         else if d < 212 + leap then 6
         else if d < 243 + leap then 7
         else if d < 273 + leap then 8
         else if d < 304 + leap then 9
         else if d < 334 + leap then 10
         else 11)"

definition DateFromTime :: "int \<Rightarrow> int" where
  "DateFromTime t =
     (let d = DayWithinYear t; leap = InLeapYear t; m = MonthFromTime t
      in if m = 0 then d + 1
         else if m = 1 then d - 30
         else if m = 2 then d - 58 - leap
         else if m = 3 then d - 89 - leap
         else if m = 4 then d - 119 - leap
         else if m = 5 then d - 150 - leap
         else if m = 6 then d - 180 - leap
         else if m = 7 then d - 211 - leap
         else if m = 8 then d - 242 - leap
         else if m = 9 then d - 272 - leap
         else if m = 10 then d - 303 - leap
         else d - 333 - leap)"

text \<open>
  \<open>MakeDay year month date\<close>: the day number of the first of the month \<open>month mod 12\<close> of
  the year \<open>year + month div 12\<close>, plus \<open>date - 1\<close>. \<open>firstDayOfMonth\<close> is the number of
  days from the start of a year to the first of a month.
\<close>

definition firstDayOfMonth :: "int \<Rightarrow> int \<Rightarrow> int" where
  "firstDayOfMonth y m =
     (let leap = (if DaysInYear y = 366 then 1 else 0)
      in if m = 0 then 0
         else if m = 1 then 31
         else if m = 2 then 59 + leap
         else if m = 3 then 90 + leap
         else if m = 4 then 120 + leap
         else if m = 5 then 151 + leap
         else if m = 6 then 181 + leap
         else if m = 7 then 212 + leap
         else if m = 8 then 243 + leap
         else if m = 9 then 273 + leap
         else if m = 10 then 304 + leap
         else 334 + leap)"

definition MakeDay :: "int \<Rightarrow> int \<Rightarrow> int \<Rightarrow> int" where
  "MakeDay year month dt =
     (let ym = year + month div 12; mn = month mod 12
      in DayFromYear ym + firstDayOfMonth ym mn + dt - 1)"

definition MakeDate :: "int \<Rightarrow> int \<Rightarrow> int" where
  "MakeDate day time = day * msPerDay + time"

definition TimeClip :: "int \<Rightarrow> int option" where
  "TimeClip time = (if \<bar>time\<bar> > 8640000000000000 then None else Some time)"

text \<open>
  The local time zone of the host: the offset of local time from UTC, in milliseconds,
  before the first transition, and the transitions in increasing order of their
  instants, each with the offset that holds from that instant on. \<open>LocalTime\<close> adds the
  offset in force at a UTC instant. \<open>UTC\<close> maps a local time to the earliest instant that
  shows it; a local time that a forward transition skips is read with the offset in
  force before that transition.
\<close>

record time_zone =
  initial_offset :: int
  transitions :: "(int \<times> int) list"

fun offset_from :: "int \<Rightarrow> (int \<times> int) list \<Rightarrow> int \<Rightarrow> int" where
  "offset_from offs [] t = offs"
| "offset_from offs ((instant, offs') # later) t =
     (if t < instant then offs else offset_from offs' later t)"

definition LocalTime :: "time_zone \<Rightarrow> int \<Rightarrow> int" where
  "LocalTime tz t = t + offset_from (initial_offset tz) (transitions tz) t"

fun utc_from :: "int \<Rightarrow> (int \<times> int) list \<Rightarrow> int \<Rightarrow> int" where
  "utc_from offs [] t = t - offs"
| "utc_from offs ((instant, offs') # later) t =
     (if t - offs < instant \<or> t - offs' < instant then t - offs
      else utc_from offs' later t)"

definition UTC :: "time_zone \<Rightarrow> int \<Rightarrow> int" where
  "UTC tz t = utc_from (initial_offset tz) (transitions tz) t"

text \<open>\<open>String(n)\<close> for a number read from a date, and \<open>padStart\<close>.\<close>

fun decimal :: "nat \<Rightarrow> string" where
  "decimal n =
     (if n < 10 then [char_of (48 + n)]
      else decimal (n div 10) @ [char_of (48 + n mod 10)])"

declare decimal.simps [simp del]

definition String_of :: "int option \<Rightarrow> string" where
  "String_of x =
     (case x of
        None \<Rightarrow> ''NaN''
      | Some n \<Rightarrow> if n < 0 then CHR ''-'' # decimal (nat (- n)) else decimal (nat n))"

definition padStart :: "string \<Rightarrow> nat \<Rightarrow> char \<Rightarrow> string" where
  "padStart str targetLength c = replicate (targetLength - length str) c @ str"

text \<open>
  The operations on \<open>Date\<close> objects that the script uses: \<open>x + n\<close> for a number \<open>x\<close> read
  from a date, the copy \<open>new Date(date)\<close>, the three local-time getters and \<open>setDate\<close>.
\<close>

definition plus_number :: "int option \<Rightarrow> int \<Rightarrow> int option" where
  "plus_number x n = map_option (\<lambda>k. k + n) x"

definition new_Date :: "int option \<Rightarrow> int option" where
  "new_Date tv = Option.bind tv TimeClip"

definition getFullYear :: "time_zone \<Rightarrow> int option \<Rightarrow> int option" where
  "getFullYear tz tv = map_option (\<lambda>t. YearFromTime (LocalTime tz t)) tv"

definition getMonth :: "time_zone \<Rightarrow> int option \<Rightarrow> int option" where
  "getMonth tz tv = map_option (\<lambda>t. MonthFromTime (LocalTime tz t)) tv"

definition getDate :: "time_zone \<Rightarrow> int option \<Rightarrow> int option" where
  "getDate tz tv = map_option (\<lambda>t. DateFromTime (LocalTime tz t)) tv"

definition setDate :: "time_zone \<Rightarrow> int option \<Rightarrow> int option \<Rightarrow> int option" where
  "setDate tz tv dt =
     (case tv of
        None \<Rightarrow> None
      | Some t0 \<Rightarrow>
          (case dt of
             None \<Rightarrow> None
           | Some d \<Rightarrow>
               let t = LocalTime tz t0;
                   newDate = MakeDate (MakeDay (YearFromTime t) (MonthFromTime t) d)
                               (TimeWithinDay t)
               in TimeClip (UTC tz newDate)))"

definition getLocalDateString :: "time_zone \<Rightarrow> int option \<Rightarrow> string" where
  "getLocalDateString tz d =
     (let year = getFullYear tz d;
          month = padStart (String_of (plus_number (getMonth tz d) 1)) 2 CHR ''0'';
          day = padStart (String_of (getDate tz d)) 2 CHR ''0''
      in String_of year @ ''-'' @ month @ ''-'' @ day)"

section \<open>\<open>generatePuzzles\<close>\<close>

record solution_words =
  six :: string
  five :: string
  four :: string
  three :: string

record puzzle =
  date :: string
  startWord :: string
  words :: "string list"
  solution :: solution_words

text \<open>
  One round of the loop over \<open>offset\<close>. An index outside \<open>validSevenLetterWords\<close> reads
  \<open>undefined\<close>, on which \<open>buildChain\<close> throws a \<open>TypeError\<close> at \<open>word.length\<close>.
\<close>

definition puzzle_for ::
  "engine \<Rightarrow> engine_state \<Rightarrow> time_zone \<Rightarrow> int option \<Rightarrow> nat \<Rightarrow>
   ((error + puzzle) \<times> engine_state) option" where
  "puzzle_for e s tz startDate offset =
     (let d = setDate tz (new_Date startDate) (plus_number (getDate tz startDate) (int offset));
          dateString = getLocalDateString tz d;
          (r, g) = mulberry32 (stringToSeed dateString);
          index = floor_times r (length (validSevenLetterWords e))
      in if index < length (validSevenLetterWords e)
         then
           let start = validSevenLetterWords e ! index
           in Option.bind (buildChain (closure_buckets e) s start mulberry32 g)
                (\<lambda>(chain, s', g').
                   case chain of
                     None \<Rightarrow> Some (Inl (ChainFailed dateString start), s')
                   | Some c \<Rightarrow>
                       if length c \<noteq> 5 then Some (Inl (ChainFailed dateString start), s')
                       else Some (Inr \<lparr>date = dateString, startWord = start, words = c,
                                       solution = \<lparr>six = c ! 1, five = c ! 2,
                                                    four = c ! 3, three = c ! 4\<rparr>\<rparr>, s'))
         else Some (Inl TypeError, s))"

function generate_loop ::
  "engine \<Rightarrow> time_zone \<Rightarrow> int option \<Rightarrow> nat \<Rightarrow> nat \<Rightarrow> engine_state \<Rightarrow> puzzle list \<Rightarrow>
   (error + puzzle list) option" where
  "generate_loop e tz startDate days offset s puzzles =
     (if offset < days
      then (case puzzle_for e s tz startDate offset of
              None \<Rightarrow> None
            | Some (Inl err, s') \<Rightarrow> Some (Inl err)
            | Some (Inr p, s') \<Rightarrow>
                generate_loop e tz startDate days (offset + 1) s' (puzzles @ [p]))
      else Some (Inr puzzles))"
  by pat_completeness auto
termination
  by (relation "measure (\<lambda>(e, tz, startDate, days, offset, s, puzzles). days - offset)") auto

declare generate_loop.simps [simp del]

text \<open>\<open>generatePuzzles\<close> in a host with the local time zone \<open>tz\<close>.\<close>

definition generatePuzzles ::
  "time_zone \<Rightarrow> int option \<Rightarrow> nat \<Rightarrow> engine \<Rightarrow> engine_state \<Rightarrow> (error + puzzle list) option" where
  "generatePuzzles tz startDate days e s = generate_loop e tz startDate days 0 s []"

text \<open>\<open>main\<close> between reading the word list and writing the output file.\<close>

definition main_generate ::
  "raw_entry list \<Rightarrow> time_zone \<Rightarrow> int option \<Rightarrow> nat \<Rightarrow> (error + puzzle list) option" where
  "main_generate raw_words tz startDate days =
     Option.bind (buildEngine raw_words) (\<lambda>built.
       case built of
         Inl err \<Rightarrow> Some (Inl err)
       | Inr (e, s) \<Rightarrow> generatePuzzles tz startDate days e s)"

section \<open>Reference semantics without caches\<close>

text \<open>
  What the caches are supposed to hold, and what the two recursive functions compute when
  the caches are left out. The recursion depth is a parameter here; a depth above the
  word's length is always enough, since every step shortens the word.
\<close>

primrec solvable_depth :: "nat \<Rightarrow> buckets \<Rightarrow> string \<Rightarrow> bool" where
  "solvable_depth 0 bk w = False"
| "solvable_depth (Suc n) bk w =
     (length w = 3 \<or> (\<exists>x \<in> set (computeNextWords bk w). solvable_depth n bk x))"

definition solvable_ref :: "buckets \<Rightarrow> string \<Rightarrow> bool" where
  "solvable_ref bk w = solvable_depth (Suc (length w)) bk w"

fun chain_loop_ref ::
  "('g \<Rightarrow> string \<Rightarrow> string list option \<times> 'g) \<Rightarrow> string \<Rightarrow> 'g \<Rightarrow> string list \<Rightarrow>
   string list option \<times> 'g" where
  "chain_loop_ref f w g [] = (None, g)"
| "chain_loop_ref f w g (x # xs) =
     (case f g x of
        (Some t, g') \<Rightarrow> (Some (w # t), g')
      | (None, g') \<Rightarrow> chain_loop_ref f w g' xs)"

primrec dfs_depth ::
  "nat \<Rightarrow> buckets \<Rightarrow> ('g \<Rightarrow> unit_double \<times> 'g) \<Rightarrow> 'g \<Rightarrow> string \<Rightarrow> string list option \<times> 'g" where
  "dfs_depth 0 bk random g w = (None, g)"
| "dfs_depth (Suc n) bk random g w =
     (if length w = 3 then (Some [w], g)
      else case shuffled (computeNextWords bk w) random g of
             (cands, g1) \<Rightarrow> chain_loop_ref (dfs_depth n bk random) w g1 cands)"

definition dfs_ref ::
  "buckets \<Rightarrow> ('g \<Rightarrow> unit_double \<times> 'g) \<Rightarrow> 'g \<Rightarrow> string \<Rightarrow> string list option \<times> 'g" where
  "dfs_ref bk random g w = dfs_depth (Suc (length w)) bk random g w"

text \<open>The caches are consistent when every entry is what the uncached computation gives.
  The empty caches are, and every operation of the engine keeps them so.\<close>

definition cache_ok :: "buckets \<Rightarrow> engine_state \<Rightarrow> bool" where
  "cache_ok bk s \<longleftrightarrow>
     (\<forall>w r. nextWordCache s w = Some r \<longrightarrow> r = computeNextWords bk w)"

definition memo_ok :: "buckets \<Rightarrow> engine_state \<Rightarrow> bool" where
  "memo_ok bk s \<longleftrightarrow> (\<forall>w b. solvableMemo s w = Some b \<longrightarrow> b = solvable_ref bk w)"

definition engine_ok :: "buckets \<Rightarrow> engine_state \<Rightarrow> bool" where
  "engine_ok bk s \<longleftrightarrow> cache_ok bk s \<and> memo_ok bk s"

text \<open>A reachability edge: the shorter word's signature is the longer word's signature
  with one character removed.\<close>

definition edge :: "string \<Rightarrow> string \<Rightarrow> bool" where
  "edge longer shorter \<longleftrightarrow>
     (\<exists>i < length longer.
        sortedLetters shorter =
          take i (sortedLetters longer) @ drop (i + 1) (sortedLetters longer))"

fun chain_edges :: "string list \<Rightarrow> bool" where
  "chain_edges (a # b # rest) \<longleftrightarrow> edge a b \<and> chain_edges (b # rest)"
| "chain_edges _ \<longleftrightarrow> True"

text \<open>The start words that \<open>buildEngine\<close> keeps, without the caches.\<close>

definition validSeven :: "string list \<Rightarrow> string list" where
  "validSeven dict =
     sort (filter (solvable_ref (buildBuckets dict)) (filter (\<lambda>word. length word = 7) dict))"

text \<open>The date string of the record at \<open>offset\<close>.\<close>

definition date_at :: "time_zone \<Rightarrow> int option \<Rightarrow> nat \<Rightarrow> string" where
  "date_at tz sd offset =
     getLocalDateString tz
       (setDate tz (new_Date sd) (plus_number (getDate tz sd) (int offset)))"

text \<open>One date's record without the caches, and the loop's result from the list of the
  dates' results: the records so far, or the first error.\<close>

definition puzzle_ref :: "engine \<Rightarrow> time_zone \<Rightarrow> int option \<Rightarrow> nat \<Rightarrow> error + puzzle" where
  "puzzle_ref e tz startDate offset =
     (let dateString = date_at tz startDate offset;
          (r, g) = mulberry32 (stringToSeed dateString);
          index = floor_times r (length (validSevenLetterWords e))
      in if index < length (validSevenLetterWords e)
         then
           let start = validSevenLetterWords e ! index
           in case fst (dfs_ref (closure_buckets e) mulberry32 g start) of
                None \<Rightarrow> Inl (ChainFailed dateString start)
              | Some c \<Rightarrow>
                  if length c \<noteq> 5 then Inl (ChainFailed dateString start)
                  else Inr \<lparr>date = dateString, startWord = start, words = c,
                            solution = \<lparr>six = c ! 1, five = c ! 2,
                                         four = c ! 3, three = c ! 4\<rparr>\<rparr>
         else Inl TypeError)"

primrec collect :: "(error + puzzle) list \<Rightarrow> puzzle list \<Rightarrow> error + puzzle list" where
  "collect [] acc = Inr acc"
| "collect (r # rs) acc = (case r of Inl err \<Rightarrow> Inl err | Inr p \<Rightarrow> collect rs (acc @ [p]))"

text \<open>The base-31 polynomial of the character codes, the hash that \<open>stringToSeed\<close> is
  said to compute modulo \<open>2 ^ 32\<close>.\<close>

definition polynomial31 :: "string \<Rightarrow> nat" where
  "polynomial31 v = (\<Sum>i < length v. of_char (v ! i) * 31 ^ (length v - Suc i))"

text \<open>
  The local time that \<open>setDate\<close> asks for at offset \<open>k\<close>: the local time of the start
  date moved by \<open>k\<close> days. It exists when the instant that \<open>UTC\<close> gives for it is within the
  range of time values and shows that local time again.
\<close>

definition requested_time :: "time_zone \<Rightarrow> int \<Rightarrow> nat \<Rightarrow> int" where
  "requested_time tz t k =
     (let lt = LocalTime tz t in MakeDate (Day lt + int k) (TimeWithinDay lt))"


text \<open>The date string of the calendar fields year, month (from 0) and day.\<close>

definition date_string :: "int \<Rightarrow> int \<Rightarrow> int \<Rightarrow> string" where
  "date_string y m d =
     String_of (Some y) @ ''-'' @ padStart (String_of (Some (m + 1))) 2 CHR ''0'' @ ''-'' @
     padStart (String_of (Some d)) 2 CHR ''0''"


text \<open>What the check \<open>!chain || chain.length !== 5\<close> finds for the date at \<open>offset\<close>
  when \<open>buildChain\<close> runs in the cache state \<open>s\<close>: the error thrown, if any.\<close>

definition chain_failure ::
  "engine \<Rightarrow> engine_state \<Rightarrow> time_zone \<Rightarrow> int option \<Rightarrow> nat \<Rightarrow> error option" where
  "chain_failure e s tz startDate offset =
     (let dateString = date_at tz startDate offset;
          (r, g) = mulberry32 (stringToSeed dateString);
          start = validSevenLetterWords e ! floor_times r (length (validSevenLetterWords e))
      in case buildChain (closure_buckets e) s start mulberry32 g of
           None \<Rightarrow> None
         | Some (None, s', g') \<Rightarrow> Some (ChainFailed dateString start)
         | Some (Some c, s', g') \<Rightarrow>
             if length c \<noteq> 5 then Some (ChainFailed dateString start) else None)"

text \<open>A small dictionary for concrete evaluations.\<close>

definition example_dict :: "string list" where
  "example_dict = [''BANANAS'', ''BANANA'', ''ANANAS'', ''ANANA'', ''BANAN'', ''NAAN'', ''ANA'', ''NAN'']"

text \<open>
  Two time zones for concrete evaluations: UTC, and the zone of Apia (Samoa) around the
  end of 2011, ten hours behind UTC until 2011-12-30 10:00 UTC and fourteen hours ahead
  from then on, so that the local day 2011-12-30 does not exist.
\<close>

definition utc :: time_zone where
  "utc = \<lparr>initial_offset = 0, transitions = []\<rparr>"


section \<open>Properties of the number model\<close>

lemma round53_small: "p < 2 ^ 53 \<Longrightarrow> round53 p = p"
  by (simp add: round53_def)

lemma round53_upper: "2 ^ 53 * round53 p \<le> (2 ^ 53 + 1) * p"
proof (cases "p < 2 ^ 53")
  case True
  then show ?thesis by (simp add: round53_def)
next
  case False
  define k where "k = floorlog 2 p - 53"
  define q where "q = p div 2 ^ k"
  define r where "r = p mod 2 ^ k"
  define h :: nat where "h = 2 ^ (k - 1)"
  from False have ppos: "0 < p" by simp
  have fl: "2 ^ (floorlog 2 p - 1) \<le> p"
    using floorlog_bounds [of p 2] ppos by simp
  have "54 \<le> floorlog 2 p"
    by (rule floorlog_geI) (use False in simp_all)
  then have k1: "1 \<le> k" and kk: "floorlog 2 p - 1 = k + 52"
    by (simp_all add: k_def)
  from fl kk have big: "2 ^ (k + 52) \<le> p" by simp
  have hh: "2 ^ k = 2 * h"
    using k1 by (cases k) (simp_all add: h_def)
  have pq: "p = q * 2 ^ k + r"
    unfolding q_def r_def by (rule div_mult_mod_eq [symmetric])
  have step: "(if h < r \<or> (r = h \<and> odd q) then q + 1 else q) * 2 ^ k \<le> p + h"
    using pq hh by (auto simp: algebra_simps)
  have "2 ^ 53 * h = 2 ^ (k + 52)"
    using k1 by (cases k) (simp_all add: h_def power_add)
  with big have hp: "2 ^ 53 * h \<le> p" by simp
  have "round53 p = (if h < r \<or> (r = h \<and> odd q) then q + 1 else q) * 2 ^ k"
    using False by (simp add: round53_def Let_def k_def q_def r_def h_def)
  with step have "round53 p \<le> p + h" by simp
  then have "2 ^ 53 * round53 p \<le> 2 ^ 53 * (p + h)"
    by (rule mult_le_mono2)
  also have "\<dots> = 2 ^ 53 * p + 2 ^ 53 * h"
    by (simp add: algebra_simps)
  also have "\<dots> \<le> 2 ^ 53 * p + p"
    using hp by simp
  finally show ?thesis by (simp add: algebra_simps)
qed

lemma floor_times_less:
  assumes "0 < n"
  shows "floor_times d n < n"
proof -
  obtain m k where d: "d = (m, k)" by (cases d)
  have m: "unat m < 2 ^ 53"
    using unsigned_less [of m] by simp
  then have m1: "unat m + 1 \<le> 2 ^ 53" by simp
  have "2 ^ 53 * round53 (unat m * n) \<le> (2 ^ 53 + 1) * (unat m * n)"
    by (rule round53_upper)
  also have "\<dots> = ((2 ^ 53 + 1) * unat m) * n"
    by (simp add: algebra_simps)
  also have "(2 ^ 53 + 1) * unat m < 2 ^ 53 * 2 ^ 53"
  proof -
    have "(2 ^ 53 + 1) * unat m \<le> (2 ^ 53 + 1) * (2 ^ 53 - 1)"
      using m by (intro mult_le_mono2) simp
    also have "\<dots> < (2 ^ 53 * 2 ^ 53 :: nat)" by simp
    finally show ?thesis .
  qed
  finally have "2 ^ 53 * round53 (unat m * n) < 2 ^ 53 * (2 ^ 53 * n)"
    using assms by (simp add: algebra_simps)
  then have "round53 (unat m * n) < 2 ^ 53 * n" by simp
  also have "\<dots> \<le> 2 ^ (53 + k) * n"
    by (simp add: power_add)
  finally have "round53 (unat m * n) < n * 2 ^ (53 + k)"
    by (simp add: mult.commute)
  then have "round53 (unat m * n) div 2 ^ (53 + k) < n"
    by (simp add: less_mult_imp_div_less)
  then show ?thesis by (simp add: floor_times_def d)
qed

section \<open>The shuffle\<close>

lemma swap_mset:
  "i < length copy \<Longrightarrow> j < length copy \<Longrightarrow> mset (swap copy i j) = mset copy"
  by (simp add: swap_def mset_swap)

lemma swap_length [simp]: "length (swap copy i j) = length copy"
  by (simp add: swap_def)

lemma shuffle_loop_mset:
  "i < length copy \<or> i = 0 \<Longrightarrow> mset (fst (shuffle_loop random copy i g)) = mset copy"
proof (induction i arbitrary: copy g)
  case 0
  show ?case by simp
next
  case (Suc i)
  obtain r g' where rg: "random g = (r, g')" by (cases "random g")
  have j: "floor_times r (Suc i + 1) < Suc i + 1"
    by (rule floor_times_less) simp
  with Suc.prems have "mset (swap copy (Suc i) (floor_times r (Suc i + 1))) = mset copy"
    by (intro swap_mset) auto
  moreover have
    "mset (fst (shuffle_loop random (swap copy (Suc i) (floor_times r (Suc i + 1))) i g'))
      = mset (swap copy (Suc i) (floor_times r (Suc i + 1)))"
    using Suc.prems by (intro Suc.IH) auto
  ultimately show ?case by (simp add: rg)
qed

lemma shuffled_mset: "mset (fst (shuffled items random g)) = mset items"
  unfolding shuffled_def by (rule shuffle_loop_mset) (cases items; simp)

lemma shuffled_set: "set (fst (shuffled items random g)) = set items"
  using shuffled_mset [of items random g] by (metis set_mset_mset)

lemma shuffled_length: "length (fst (shuffled items random g)) = length items"
  using shuffled_mset [of items random g] by (metis size_mset)

lemma shuffle_loop_store_eq:
  "copy < length h \<Longrightarrow>
   shuffle_loop_store random h copy i g =
     (h[copy := fst (shuffle_loop random (h ! copy) i g)],
      snd (shuffle_loop random (h ! copy) i g))"
proof (induction i arbitrary: h g)
  case 0
  then show ?case by simp
next
  case (Suc i)
  obtain r g' where rg: "random g = (r, g')" by (cases "random g")
  show ?case
    using Suc.prems by (simp add: rg Suc.IH Let_def)
qed

lemma shuffled_store_eq:
  "shuffled_store h items random g =
     (length h, h @ [fst (shuffled (h ! items) random g)],
      snd (shuffled (h ! items) random g))"
proof -
  have c: "length h < length (h @ [h ! items])" by simp
  show ?thesis
    by (simp add: shuffled_store_def spread_def shuffle_loop_store_eq [OF c] shuffled_def)
qed

text \<open>Unfolding the loop at a literal index, for evaluation.\<close>

lemma shuffle_loop_numeral:
  "shuffle_loop random copy (numeral n) g =
     (let (r, g') = random g;
          j = floor_times r (numeral n + 1)
      in shuffle_loop random (swap copy (numeral n) j) (pred_numeral n) g')"
  by (simp add: numeral_eq_Suc)

text \<open>
  C10. For every array \<open>items\<close> of the store and every random source (of values in
  \<open>[0,1)\<close>, whatever its state), \<open>shuffled\<close> returns a newly allocated array that is a
  permutation of \<open>items\<close> (the same elements with the same multiplicities, hence the same
  length), and every array that was in the store before the call, \<open>items\<close> among them, is
  unchanged.
\<close>

theorem shuffled_returns_permutation_of_unmodified_input:
  assumes "items < length h"
  shows "case shuffled_store h items random g of (copy, h', g') \<Rightarrow>
           copy = length h \<and> length h' = length h + 1 \<and>
           mset (h' ! copy) = mset (h ! items) \<and>
           length (h' ! copy) = length (h ! items) \<and>
           (\<forall>a < length h. h' ! a = h ! a) \<and>
           (h' ! copy, g') = shuffled (h ! items) random g"
  unfolding shuffled_store_eq using assms
  by (simp add: shuffled_mset shuffled_length nth_append)

theorem shuffled_permutation_witness:
  "(0 :: nat) < length [[10, 20, 30, 40, 50 :: nat]] \<and>
   shuffled_store [[10, 20, 30, 40, 50 :: nat]] 0 mulberry32 42
     = (1, [[10, 20, 30, 40, 50], [10, 50, 30, 20, 40]], 7326263294)"
proof -
  have m0: "mulberry32 42 = ((5414261266317312, 0), 1831565855)"
    by (simp add: mulberry32_def round53_def Let_def split del: if_split cong: let_weak_cong)
  have f0: "floor_times (5414261266317312, 0) 5 = 3"
    by (simp add: floor_times_def round53_def Let_def compute_floorlog
        split del: if_split cong: let_weak_cong)
  have m1: "mulberry32 1831565855 = ((4037842388910080, 0), 3663131668)"
    by (simp add: mulberry32_def round53_def Let_def split del: if_split cong: let_weak_cong)
  have f1: "floor_times (4037842388910080, 0) 4 = 1"
    by (simp add: floor_times_def round53_def Let_def compute_floorlog
        split del: if_split cong: let_weak_cong)
  have m2: "mulberry32 3663131668 = ((7678329259819008, 0), 5494697481)"
    by (simp add: mulberry32_def round53_def Let_def split del: if_split cong: let_weak_cong)
  have f2: "floor_times (7678329259819008, 0) 3 = 2"
    by (simp add: floor_times_def round53_def Let_def compute_floorlog
        split del: if_split cong: let_weak_cong)
  have m3: "mulberry32 5494697481 = ((6032427958927360, 0), 7326263294)"
    by (simp add: mulberry32_def round53_def Let_def split del: if_split cong: let_weak_cong)
  have f3: "floor_times (6032427958927360, 0) (Suc (Suc 0)) = 1"
    by (simp add: floor_times_def round53_def Let_def compute_floorlog
        split del: if_split cong: let_weak_cong)
  have lp: "shuffle_loop mulberry32 [10, 20, 30, 40, 50 :: nat] 4 42 = ([10, 50, 30, 20, 40], 7326263294)"
    by (simp add: shuffle_loop_numeral swap_def Let_def m0 f0 m1 f1 m2 f2 m3 f3
        split del: if_split cong: let_weak_cong prod.case_cong_weak)
  have len: "length [10, 20, 30, 40, 50 :: nat] - 1 = 4" by simp
  have sh: "shuffled [10, 20, 30, 40, 50 :: nat] mulberry32 42 = ([10, 50, 30, 20, 40], 7326263294)"
    unfolding shuffled_def len by (rule lp)
  show ?thesis
    using shuffled_returns_permutation_of_unmodified_input
      [of 0 "[[10, 20, 30, 40, 50 :: nat]]" mulberry32 42]
    by (simp add: shuffled_store_eq sh)
qed

section \<open>Solvability of three-letter strings\<close>

text \<open>
  C9. \<open>isSolvable\<close> returns true, and leaves the caches as they are, for every string of
  length exactly 3, whatever the buckets and the caches hold: the test is on the length
  alone, not on membership in the dictionary.
\<close>

theorem isSolvable_length_three:
  "length W = 3 \<Longrightarrow> isSolvable bk s W = Some (True, s)"
  by (subst isSolvable.simps) simp

theorem isSolvable_length_three_witness:
  "length ''ZZZ'' = 3 \<and> ''ZZZ'' \<notin> set (normalize [Str ''BANANAS''])
   \<and> isSolvable (buildBuckets (normalize [Str ''BANANAS''])) empty_state ''ZZZ''
       = Some (True, empty_state)"
proof -
  have "normalize [Str ''BANANAS''] = [''BANANAS'']"
    by (simp add: normalize_def new_Set_def set_add_def isWord_def trim_def toUpperCase_def
        upperChar_def isWhiteSpace_def word_string_def Let_def char_of_def bit_0)
  then show ?thesis
    using isSolvable_length_three [of "''ZZZ''" "buildBuckets (normalize [Str ''BANANAS''])" empty_state]
    by simp
qed

section \<open>The bucket index\<close>

lemma bucket_get_push:
  "bucket_get (bucket_push b w) key =
     bucket_get b key @ (if sortedLetters w = key then [w] else [])"
  by (auto simp: bucket_get_def bucket_push_def Let_def split: option.splits)

lemma bucket_get_fold:
  "bucket_get (fold (\<lambda>word buckets. bucket_push buckets word) ws b) key =
     bucket_get b key @ filter (\<lambda>w. sortedLetters w = key) ws"
  by (induction ws arbitrary: b) (simp_all add: bucket_get_push)

lemma bucket_get_buildBuckets:
  "bucket_get (buildBuckets dict) key = filter (\<lambda>w. sortedLetters w = key) dict"
  by (simp add: buildBuckets_def bucket_get_fold) (simp add: bucket_get_def)

lemma set_add_set [simp]: "set (set_add s x) = insert x (set s)"
  by (auto simp: set_add_def)

lemma set_add_distinct [simp]: "distinct s \<Longrightarrow> distinct (set_add s x)"
  by (auto simp: set_add_def)

lemma fold_set_add_set [simp]:
  "set (fold (\<lambda>x s. set_add s x) xs s) = set s \<union> set xs"
  by (induction xs arbitrary: s) auto

lemma fold_set_add_distinct [simp]:
  "distinct s \<Longrightarrow> distinct (fold (\<lambda>x s. set_add s x) xs s)"
  by (induction xs arbitrary: s) auto

lemma new_Set_set [simp]: "set (new_Set xs) = set xs"
  by (simp add: new_Set_def)

lemma new_Set_distinct [simp]: "distinct (new_Set xs)"
  by (simp add: new_Set_def)

lemma word_string_inj:
  assumes "isWord u" and "isWord v" and "word_string u = word_string v"
  shows "u = v"
proof (rule nth_equalityI)
  from assms(3) have "length (word_string u) = length (word_string v)" by simp
  then show l: "length u = length v" by (simp add: word_string_def)
  fix i
  assume i: "i < length u"
  with l have j: "i < length v" by simp
  from i j have "u ! i \<in> set u" "v ! i \<in> set v" by simp_all
  with assms(1,2) have "u ! i \<le> 90" "v ! i \<le> 90"
    unfolding isWord_def by blast+
  then have "u ! i < 256" "v ! i < 256" by simp_all
  moreover from assms(3) i j have "char_of (u ! i) = (char_of (v ! i) :: char)"
    by (metis word_string_def nth_map)
  then have "(of_char (char_of (u ! i) :: char) :: nat) = of_char (char_of (v ! i) :: char)"
    by simp
  ultimately show "u ! i = v ! i" by simp
qed

lemma normalize_distinct: "distinct (normalize raw)"
  unfolding normalize_def
  by (rule distinct_map [THEN iffD2]) (auto simp: inj_on_def intro: word_string_inj)

lemma normalize_isWord:
  assumes "w \<in> set (normalize raw)"
  shows "3 \<le> length w \<and> length w \<le> 7 \<and>
         (\<forall>c \<in> set w. (65 :: nat) \<le> of_char c \<and> of_char c \<le> (90 :: nat))"
proof -
  from assms obtain u where u: "isWord u" and w: "w = word_string u"
    by (auto simp: normalize_def)
  have "(65 :: nat) \<le> of_char c \<and> of_char c \<le> (90 :: nat)" if "c \<in> set w" for c
  proof -
    from that w obtain n where n: "n \<in> set u" and c: "c = char_of n"
      by (auto simp: word_string_def)
    from u n have "65 \<le> n" "n \<le> 90" by (auto simp: isWord_def)
    then show ?thesis by (simp add: c)
  qed
  with u w show ?thesis by (simp add: isWord_def word_string_def)
qed

section \<open>Reachability\<close>

definition deleted :: "string \<Rightarrow> nat \<Rightarrow> string" where
  "deleted sw i = take i sw @ drop (i + 1) sw"

definition del_inv :: "buckets \<Rightarrow> string list \<times> string list \<Rightarrow> bool" where
  "del_inv bk acc \<longleftrightarrow>
     (case acc of (seen, cands) \<Rightarrow>
        distinct cands \<and> set cands = (\<Union>sg \<in> set seen. set (bucket_get bk sg)))"

lemma deletion_step_inv:
  assumes "del_inv bk acc"
  shows "del_inv bk (deletion_step bk sw i acc)
         \<and> set (fst (deletion_step bk sw i acc)) = insert (deleted sw i) (set (fst acc))"
  using assms
  by (cases acc) (auto simp: del_inv_def deletion_step_def deleted_def Let_def)

lemma deletion_fold_inv:
  assumes "del_inv bk acc"
  shows "del_inv bk (fold (deletion_step bk sw) is acc)
         \<and> set (fst (fold (deletion_step bk sw) is acc)) = deleted sw ` set is \<union> set (fst acc)"
  using assms
proof (induction "is" arbitrary: acc)
  case Nil
  then show ?case by simp
next
  case (Cons i "is")
  from deletion_step_inv [OF Cons.prems, of sw i]
  have 1: "del_inv bk (deletion_step bk sw i acc)"
    and 2: "set (fst (deletion_step bk sw i acc)) = insert (deleted sw i) (set (fst acc))"
    by simp_all
  from Cons.IH [OF 1] 2 show ?case by auto
qed

lemma computeNextWords_short: "length w \<le> 3 \<Longrightarrow> computeNextWords bk w = []"
  by (simp add: computeNextWords_def)

lemma computeNextWords_sorted: "sorted (computeNextWords bk w)"
  by (simp add: computeNextWords_def Let_def split: prod.splits)

lemma computeNextWords_set_distinct:
  "distinct (computeNextWords bk w) \<and>
   set (computeNextWords bk w) =
     (if length w \<le> 3 then {}
      else (\<Union>i < length w. set (bucket_get bk (deleted (sortedLetters w) i))))"
proof (cases "length w \<le> 3")
  case True
  then show ?thesis by (simp add: computeNextWords_def)
next
  case False
  let ?sw = "sortedLetters w"
  let ?r = "fold (deletion_step bk ?sw) [0..<length ?sw] ([], [])"
  have "del_inv bk ([], [])" by (simp add: del_inv_def)
  from deletion_fold_inv [OF this, of ?sw "[0..<length ?sw]"]
  have inv: "del_inv bk ?r" and seen: "set (fst ?r) = deleted ?sw ` {0..<length ?sw}"
    by simp_all
  obtain seen cands where r: "?r = (seen, cands)" by (cases ?r)
  from inv seen r have d: "distinct cands"
    and c: "set cands = (\<Union>i < length ?sw. set (bucket_get bk (deleted ?sw i)))"
    by (auto simp: del_inv_def)
  have len: "length ?sw = length w" by (simp add: sortedLetters_def)
  have "computeNextWords bk w = sort cands"
    using False r by (simp add: computeNextWords_def Let_def)
  with d c len False show ?thesis by simp
qed

lemma computeNextWords_distinct: "distinct (computeNextWords bk w)"
  using computeNextWords_set_distinct by blast

lemma computeNextWords_iff:
  "x \<in> set (computeNextWords (buildBuckets dict) w) \<longleftrightarrow>
     3 < length w \<and> x \<in> set dict \<and> edge w x"
  using computeNextWords_set_distinct [of "buildBuckets dict" w]
  by (auto simp: bucket_get_buildBuckets edge_def deleted_def)

lemma edge_length: "edge w x \<Longrightarrow> length x + 1 = length w"
proof -
  assume "edge w x"
  then obtain i where i: "i < length w"
    and eq: "sortedLetters x = take i (sortedLetters w) @ drop (i + 1) (sortedLetters w)"
    by (auto simp: edge_def)
  have "length x = length (sortedLetters x)" by (simp add: sortedLetters_def)
  also have "\<dots> = length w - 1"
    unfolding eq using i by (simp add: sortedLetters_def min_def)
  finally show ?thesis using i by simp
qed

lemma computeNextWords_length:
  "x \<in> set (computeNextWords (buildBuckets dict) w) \<Longrightarrow> length x + 1 = length w"
  by (auto simp: computeNextWords_iff dest: edge_length)

lemma getNextWords_ok:
  assumes "cache_ok bk s"
  shows "fst (getNextWords bk s w) = computeNextWords bk w"
    and "cache_ok bk (snd (getNextWords bk s w))"
    and "solvableMemo (snd (getNextWords bk s w)) = solvableMemo s"
    and "nextWordCache (snd (getNextWords bk s w)) w = Some (computeNextWords bk w)"
  using assms
  by (auto simp: getNextWords_def cache_ok_def Let_def split: option.splits)

lemma getNextWords_memo_ok:
  "memo_ok bk s \<Longrightarrow> memo_ok bk (snd (getNextWords bk s w))"
  by (auto simp: getNextWords_def memo_ok_def Let_def split: option.splits)

lemma getNextWords_engine_ok:
  "engine_ok bk s \<Longrightarrow> engine_ok bk (snd (getNextWords bk s w))"
  by (simp add: engine_ok_def getNextWords_ok getNextWords_memo_ok)

lemma empty_state_ok: "engine_ok bk empty_state"
  by (simp add: engine_ok_def cache_ok_def memo_ok_def empty_state_def)


section \<open>Solvability\<close>

lemma solvable_depth_enough:
  "length w < n \<Longrightarrow> length w < m \<Longrightarrow>
   solvable_depth n (buildBuckets dict) w = solvable_depth m (buildBuckets dict) w"
proof (induction n arbitrary: m w)
  case 0
  then show ?case by simp
next
  case (Suc n)
  then obtain m' where m: "m = Suc m'" by (cases m) auto
  have "solvable_depth n (buildBuckets dict) x = solvable_depth m' (buildBuckets dict) x"
    if "x \<in> set (computeNextWords (buildBuckets dict) w)" for x
  proof -
    from that have "length x + 1 = length w" by (rule computeNextWords_length)
    with Suc.prems m show ?thesis by (intro Suc.IH) auto
  qed
  then show ?case by (auto simp: m)
qed

lemma solvable_ref_unfold:
  "solvable_ref (buildBuckets dict) w \<longleftrightarrow>
     length w = 3 \<or>
     (\<exists>x \<in> set (computeNextWords (buildBuckets dict) w). solvable_ref (buildBuckets dict) x)"
proof -
  have "solvable_depth (length w) (buildBuckets dict) x = solvable_ref (buildBuckets dict) x"
    if "x \<in> set (computeNextWords (buildBuckets dict) w)" for x
  proof -
    from that have "length x + 1 = length w" by (rule computeNextWords_length)
    then show ?thesis
      unfolding solvable_ref_def by (intro solvable_depth_enough) auto
  qed
  then show ?thesis by (auto simp: solvable_ref_def)
qed

lemma memo_ok_update:
  "memo_ok bk s \<Longrightarrow> b = solvable_ref bk w \<Longrightarrow>
   memo_ok bk (s\<lparr>solvableMemo := (solvableMemo s)(w \<mapsto> b)\<rparr>)"
  by (auto simp: memo_ok_def)

lemma engine_ok_update:
  "engine_ok bk s \<Longrightarrow> b = solvable_ref bk w \<Longrightarrow>
   engine_ok bk (s\<lparr>solvableMemo := (solvableMemo s)(w \<mapsto> b)\<rparr>)"
  by (auto simp: engine_ok_def memo_ok_def cache_ok_def)

lemma solvable_loop_ref:
  assumes f: "\<And>x s. x \<in> set ws \<Longrightarrow> engine_ok bk s \<Longrightarrow>
               \<exists>s'. f s x = Some (solvable_ref bk x, s') \<and> engine_ok bk s'"
    and s: "engine_ok bk s"
    and w: "solvable_ref bk word \<longleftrightarrow> (\<exists>x \<in> set ws. solvable_ref bk x)"
  shows "\<exists>s'. solvable_loop f word s ws = Some (solvable_ref bk word, s') \<and> engine_ok bk s'"
  using f s w
proof (induction ws arbitrary: s)
  case Nil
  then have "\<not> solvable_ref bk word" by simp
  with Nil.prems(2) show ?case
    by (simp add: engine_ok_update)
next
  case (Cons x ws)
  from Cons.prems(1) [of x s] Cons.prems(2)
  obtain s1 where fx: "f s x = Some (solvable_ref bk x, s1)" and s1: "engine_ok bk s1"
    by auto
  show ?case
  proof (cases "solvable_ref bk x")
    case True
    with Cons.prems(3) have "solvable_ref bk word" by simp
    with fx s1 True show ?thesis
      by (simp add: engine_ok_update)
  next
    case False
    with Cons.prems(3) have "solvable_ref bk word \<longleftrightarrow> (\<exists>x \<in> set ws. solvable_ref bk x)"
      by simp
    then have "\<exists>s'. solvable_loop f word s1 ws = Some (solvable_ref bk word, s')
        \<and> engine_ok bk s'"
      using Cons.prems(1) s1 by (intro Cons.IH) auto
    with fx False show ?thesis by simp
  qed
qed

lemma isSolvable_ref:
  assumes "engine_ok (buildBuckets dict) s"
  shows "\<exists>s'. isSolvable (buildBuckets dict) s w = Some (solvable_ref (buildBuckets dict) w, s')
              \<and> engine_ok (buildBuckets dict) s'"
  using assms
proof (induction "length w" arbitrary: w s rule: less_induct)
  case less
  let ?bk = "buildBuckets dict"
  show ?case
  proof (cases "length w = 3")
    case True
    then have "solvable_ref ?bk w" by (subst solvable_ref_unfold) simp
    with True less.prems show ?thesis
      by (subst isSolvable.simps) auto
  next
    case False
    show ?thesis
    proof (cases "solvableMemo s w")
      case (Some b)
      with less.prems have "b = solvable_ref ?bk w"
        by (simp add: engine_ok_def memo_ok_def)
      with Some False less.prems show ?thesis
        by (subst isSolvable.simps) auto
    next
      case None
      obtain ws s1 where g: "getNextWords ?bk s w = (ws, s1)"
        by (cases "getNextWords ?bk s w")
      from less.prems have ws: "ws = computeNextWords ?bk w" and s1: "engine_ok ?bk s1"
        using getNextWords_ok(1) [of ?bk s w] getNextWords_engine_ok [of ?bk s w] g
        by (simp_all add: engine_ok_def)
      have r: "solvable_ref ?bk w = (\<exists>x \<in> set ws. solvable_ref ?bk x)"
        using solvable_ref_unfold [of dict w] False ws by simp
      have "\<exists>s'. solvable_loop (isSolvable ?bk) w s1 ws = Some (solvable_ref ?bk w, s')
           \<and> engine_ok ?bk s'"
      proof (rule solvable_loop_ref [OF _ s1 r])
        fix x t
        assume "x \<in> set ws" and t: "engine_ok ?bk t"
        then have "length x < length w"
          using computeNextWords_length [of x dict w] ws by simp
        then show "\<exists>s'. isSolvable ?bk t x = Some (solvable_ref ?bk x, s') \<and> engine_ok ?bk s'"
          using t by (rule less.hyps)
      qed
      with None False g show ?thesis
        by (subst isSolvable.simps) auto
    qed
  qed
qed


section \<open>Chain search\<close>

lemma chain_loop_ref_eq:
  assumes f: "\<And>x s g. x \<in> set ws \<Longrightarrow> P s \<Longrightarrow>
               \<exists>s'. f (s, g) x = Some (fst (fr g x), s', snd (fr g x)) \<and> P s'"
    and s: "P s"
  shows "\<exists>s'. chain_loop f word (s, g) ws =
               Some (fst (chain_loop_ref fr word g ws), s', snd (chain_loop_ref fr word g ws))
             \<and> P s'"
  using f s
proof (induction ws arbitrary: s g)
  case Nil
  then show ?case by simp
next
  case (Cons x ws)
  from Cons.prems(1) [of x s g] Cons.prems(2)
  obtain s1 where fx: "f (s, g) x = Some (fst (fr g x), s1, snd (fr g x))" and s1: "P s1"
    by auto
  obtain t g1 where frx: "fr g x = (t, g1)" by (cases "fr g x")
  show ?case
  proof (cases t)
    case (Some c)
    with fx frx s1 show ?thesis by auto
  next
    case None
    have "\<exists>s'. chain_loop f word (s1, g1) ws =
               Some (fst (chain_loop_ref fr word g1 ws), s', snd (chain_loop_ref fr word g1 ws))
             \<and> P s'"
      using Cons.prems(1) s1 by (intro Cons.IH) auto
    with fx frx None show ?thesis by auto
  qed
qed

lemma dfs_depth_eq:
  assumes "engine_ok (buildBuckets dict) s" and "length w < n"
  shows "\<exists>s'. dfs (buildBuckets dict) random (s, g) w =
               Some (fst (dfs_depth n (buildBuckets dict) random g w), s',
                     snd (dfs_depth n (buildBuckets dict) random g w))
             \<and> engine_ok (buildBuckets dict) s'"
  using assms
proof (induction n arbitrary: w s g)
  case 0
  then show ?case by simp
next
  case (Suc n)
  let ?bk = "buildBuckets dict"
  show ?case
  proof (cases "length w = 3")
    case True
    with Suc.prems show ?thesis
      by (subst dfs.simps) auto
  next
    case False
    obtain ws s1 where gn: "getNextWords ?bk s w = (ws, s1)"
      by (cases "getNextWords ?bk s w")
    from Suc.prems(1) have ws: "ws = computeNextWords ?bk w" and s1: "engine_ok ?bk s1"
      using getNextWords_ok(1) [of ?bk s w] getNextWords_engine_ok [of ?bk s w] gn
      by (simp_all add: engine_ok_def)
    obtain cands g1 where sh: "shuffled ws random g = (cands, g1)"
      by (cases "shuffled ws random g")
    have cs: "set cands = set ws"
      using shuffled_set [of ws random g] sh by simp
    have "\<exists>s'. chain_loop (dfs ?bk random) w (s1, g1) cands =
               Some (fst (chain_loop_ref (dfs_depth n ?bk random) w g1 cands), s',
                     snd (chain_loop_ref (dfs_depth n ?bk random) w g1 cands))
             \<and> engine_ok ?bk s'"
    proof (rule chain_loop_ref_eq [where P = "engine_ok ?bk", OF _ s1])
      fix x t g'
      assume "x \<in> set cands" and t: "engine_ok ?bk t"
      then have "length x + 1 = length w"
        using computeNextWords_length [of x dict w] ws cs by simp
      with Suc.prems(2) have "length x < n" by simp
      with t show "\<exists>s'. dfs ?bk random (t, g') x =
               Some (fst (dfs_depth n ?bk random g' x), s', snd (dfs_depth n ?bk random g' x))
             \<and> engine_ok ?bk s'"
        by (rule Suc.IH)
    qed
    with False gn sh ws show ?thesis
      by (subst dfs.simps) auto
  qed
qed

lemma dfs_ref_eq:
  assumes "engine_ok (buildBuckets dict) s"
  shows "\<exists>s'. dfs (buildBuckets dict) random (s, g) w =
               Some (fst (dfs_ref (buildBuckets dict) random g w), s',
                     snd (dfs_ref (buildBuckets dict) random g w))
             \<and> engine_ok (buildBuckets dict) s'"
  unfolding dfs_ref_def by (rule dfs_depth_eq [OF assms]) simp

lemma chain_loop_ref_Some:
  assumes "fst (chain_loop_ref f w g ws) = Some c"
  shows "\<exists>x \<in> set ws. \<exists>g' c'. fst (f g' x) = Some c' \<and> c = w # c'"
  using assms
proof (induction ws arbitrary: g)
  case Nil
  then show ?case by simp
next
  case (Cons x ws)
  obtain t g1 where fx: "f g x = (t, g1)" by (cases "f g x")
  show ?case
  proof (cases t)
    case None
    with Cons fx show ?thesis by auto
  next
    case (Some c')
    with Cons.prems fx have "c = w # c'" by simp
    with Some fx show ?thesis by (intro bexI [of _ x] exI [of _ g] exI [of _ c']) simp_all
  qed
qed

lemma chain_loop_ref_success:
  assumes "\<And>x g. x \<in> set ws \<Longrightarrow> fst (f g x) \<noteq> None \<longleftrightarrow> S x"
  shows "fst (chain_loop_ref f w g ws) \<noteq> None \<longleftrightarrow> (\<exists>x \<in> set ws. S x)"
  using assms
proof (induction ws arbitrary: g)
  case Nil
  then show ?case by simp
next
  case (Cons x ws)
  obtain t g1 where fx: "f g x = (t, g1)" by (cases "f g x")
  from Cons.prems [of x g] fx have tx: "t \<noteq> None \<longleftrightarrow> S x" by simp
  show ?case
  proof (cases t)
    case None
    with tx have "\<not> S x" by simp
    moreover have "fst (chain_loop_ref f w g1 ws) \<noteq> None \<longleftrightarrow> (\<exists>x \<in> set ws. S x)"
      using Cons.prems by (intro Cons.IH) auto
    ultimately show ?thesis using None fx by simp
  next
    case (Some c')
    with tx fx show ?thesis by auto
  qed
qed

lemma dfs_depth_success:
  "length w < n \<Longrightarrow>
   fst (dfs_depth n (buildBuckets dict) random g w) \<noteq> None
     \<longleftrightarrow> solvable_ref (buildBuckets dict) w"
proof (induction n arbitrary: w g)
  case 0
  then show ?case by simp
next
  case (Suc n)
  let ?bk = "buildBuckets dict"
  show ?case
  proof (cases "length w = 3")
    case True
    then show ?thesis by (subst solvable_ref_unfold) simp
  next
    case False
    obtain cands g1 where sh: "shuffled (computeNextWords ?bk w) random g = (cands, g1)"
      by (cases "shuffled (computeNextWords ?bk w) random g")
    have cs: "set cands = set (computeNextWords ?bk w)"
      using shuffled_set [of "computeNextWords ?bk w" random g] sh by simp
    have "fst (chain_loop_ref (dfs_depth n ?bk random) w g1 cands) \<noteq> None
        \<longleftrightarrow> (\<exists>x \<in> set cands. solvable_ref ?bk x)"
    proof (rule chain_loop_ref_success)
      fix x g'
      assume "x \<in> set cands"
      then have "length x + 1 = length w"
        using computeNextWords_length [of x dict w] cs by simp
      with Suc.prems have "length x < n" by simp
      then show "fst (dfs_depth n ?bk random g' x) \<noteq> None \<longleftrightarrow> solvable_ref ?bk x"
        by (rule Suc.IH)
    qed
    with False sh cs show ?thesis
      by (subst solvable_ref_unfold) simp
  qed
qed

lemma dfs_depth_chain:
  "length w < n \<Longrightarrow> fst (dfs_depth n (buildBuckets dict) random g w) = Some c \<Longrightarrow>
   hd c = w \<and> chain_edges c \<and> map length c = rev [3..<Suc (length w)]
   \<and> set (tl c) \<subseteq> set dict"
proof (induction n arbitrary: w g c)
  case 0
  then show ?case by simp
next
  case (Suc n)
  let ?bk = "buildBuckets dict"
  show ?case
  proof (cases "length w = 3")
    case True
    with Suc.prems show ?thesis by (auto simp: upt_rec)
  next
    case False
    obtain cands g1 where sh: "shuffled (computeNextWords ?bk w) random g = (cands, g1)"
      by (cases "shuffled (computeNextWords ?bk w) random g")
    have cs: "set cands = set (computeNextWords ?bk w)"
      using shuffled_set [of "computeNextWords ?bk w" random g] sh by simp
    from Suc.prems(2) False sh
    have "fst (chain_loop_ref (dfs_depth n ?bk random) w g1 cands) = Some c" by simp
    from chain_loop_ref_Some [OF this]
    obtain x g' c' where x: "x \<in> set cands"
      and c': "fst (dfs_depth n ?bk random g' x) = Some c'" and c: "c = w # c'"
      by blast
    from x cs have xw: "3 < length w" "x \<in> set dict" "edge w x"
      by (simp_all add: computeNextWords_iff)
    from edge_length [OF xw(3)] have lx: "length x + 1 = length w" .
    with Suc.prems(1) have "length x < n" by simp
    from Suc.IH [OF this c']
    have ih: "hd c' = x" "chain_edges c'" "map length c' = rev [3..<Suc (length x)]"
      "set (tl c') \<subseteq> set dict"
      by simp_all
    from ih(3) lx xw(1) have "c' \<noteq> []" by auto
    then obtain y ys where c'': "c' = y # ys" by (cases c') auto
    with ih(1) have y: "y = x" by simp
    have "[3..<Suc (length w)] = [3..<Suc (length x)] @ [length w]"
      using lx xw(1) by (simp add: upt_Suc_append [symmetric] del: upt_Suc)
    with c c'' y ih xw show ?thesis by auto
  qed
qed

section \<open>A small dictionary, evaluated\<close>

lemmas eval_normalize =
  normalize_def new_Set_def set_add_def isWord_def trim_def toUpperCase_def upperChar_def
  isWhiteSpace_def word_string_def Let_def char_of_def bit_0

lemma nw_BANANAS: "computeNextWords (buildBuckets example_dict) ''BANANAS'' = [''ANANAS'', ''BANANA'']"
  by (simp add: computeNextWords_def example_dict_def buildBuckets_def bucket_push_def
      bucket_get_def sortedLetters_def deletion_step_def set_add_def Let_def)
lemma nw_BANANA: "computeNextWords (buildBuckets example_dict) ''BANANA'' = [''ANANA'', ''BANAN'']"
  by (simp add: computeNextWords_def example_dict_def buildBuckets_def bucket_push_def
      bucket_get_def sortedLetters_def deletion_step_def set_add_def Let_def)
lemma nw_ANANAS: "computeNextWords (buildBuckets example_dict) ''ANANAS'' = [''ANANA'']"
  by (simp add: computeNextWords_def example_dict_def buildBuckets_def bucket_push_def
      bucket_get_def sortedLetters_def deletion_step_def set_add_def Let_def)
lemma nw_ANANA: "computeNextWords (buildBuckets example_dict) ''ANANA'' = [''NAAN'']"
  by (simp add: computeNextWords_def example_dict_def buildBuckets_def bucket_push_def
      bucket_get_def sortedLetters_def deletion_step_def set_add_def Let_def)
lemma nw_BANAN: "computeNextWords (buildBuckets example_dict) ''BANAN'' = [''NAAN'']"
  by (simp add: computeNextWords_def example_dict_def buildBuckets_def bucket_push_def
      bucket_get_def sortedLetters_def deletion_step_def set_add_def Let_def)
lemma nw_NAAN: "computeNextWords (buildBuckets example_dict) ''NAAN'' = [''ANA'', ''NAN'']"
  by (simp add: computeNextWords_def example_dict_def buildBuckets_def bucket_push_def
      bucket_get_def sortedLetters_def deletion_step_def set_add_def Let_def)

lemmas example_nextWords = nw_BANANAS nw_BANANA nw_ANANAS nw_ANANA nw_BANAN nw_NAAN

lemma example_solvable: "solvable_ref (buildBuckets example_dict) ''BANANAS''"
  by (simp add: solvable_ref_def example_nextWords)

lemma example_chain:
  "dfs_ref (buildBuckets example_dict) mulberry32 42 ''BANANAS'' =
     (Some [''BANANAS'', ''ANANAS'', ''ANANA'', ''NAAN'', ''NAN''], 3663131668)"
proof -
  have m0: "mulberry32 42 = ((5414261266317312, 0), 1831565855)"
    by (simp add: mulberry32_def round53_def Let_def split del: if_split cong: let_weak_cong)
  have m1: "mulberry32 1831565855 = ((4037842388910080, 0), 3663131668)"
    by (simp add: mulberry32_def round53_def Let_def split del: if_split cong: let_weak_cong)
  have f0: "floor_times (5414261266317312, 0) (Suc (Suc 0)) = Suc 0"
    by (simp add: floor_times_def round53_def Let_def compute_floorlog
        split del: if_split cong: let_weak_cong)
  have f1: "floor_times (4037842388910080, 0) (Suc (Suc 0)) = 0"
    by (simp add: floor_times_def round53_def Let_def compute_floorlog
        split del: if_split cong: let_weak_cong)
  show ?thesis
    by (simp add: dfs_ref_def example_nextWords shuffled_def swap_def Let_def m0 m1 f0 f1
        split del: if_split cong: let_weak_cong prod.case_cong_weak)
qed

section \<open>Claims about the bucket index and reachability\<close>

text \<open>
  C5, as stated, fails: a bucket keeps its words in the order of the dictionary, which
  need not be sorted (only the result of \<open>getNextWords\<close> is sorted).
\<close>

theorem bucket_not_sorted_counterexample:
  "\<not> sorted (bucket_get (buildBuckets (normalize [Str ''TAB'', Str ''BAT'']))
                (sortedLetters ''TAB''))"
proof -
  have n: "normalize [Str ''TAB'', Str ''BAT''] = [''TAB'', ''BAT'']"
    by (simp add: eval_normalize)
  have "bucket_get (buildBuckets [''TAB'', ''BAT'']) (sortedLetters ''TAB'') = [''TAB'', ''BAT'']"
    by (simp add: bucket_get_buildBuckets sortedLetters_def)
  moreover have "\<not> sorted [''TAB'', ''BAT'']"
    by (simp add: less_char_def less_eq_char_def)
  ultimately show ?thesis by (simp add: n)
qed

text \<open>
  C5, amended. After the bucket index is built from the normalized dictionary, looking
  up any signature returns exactly the dictionary words whose sorted letters equal that
  signature, each once, in the order in which they stand in the dictionary (the order of
  first occurrence in the input).
\<close>

theorem bucket_lookup_exact:
  "bucket_get (buildBuckets (normalize raw)) key =
     filter (\<lambda>w. sortedLetters w = key) (normalize raw)
   \<and> distinct (bucket_get (buildBuckets (normalize raw)) key)"
  by (simp add: bucket_get_buildBuckets normalize_distinct)

theorem bucket_lookup_exact_witness:
  "bucket_get (buildBuckets (normalize [Str ''TAB'', Str ''ANA'', Str ''bat '', Str ''TAB'']))
     ''ABT'' = [''TAB'', ''BAT'']"
proof -
  have n: "normalize [Str ''TAB'', Str ''ANA'', Str ''bat '', Str ''TAB'']
      = [''TAB'', ''ANA'', ''BAT'']"
    by (simp add: eval_normalize)
  show ?thesis
    using bucket_lookup_exact [of "[Str ''TAB'', Str ''ANA'', Str ''bat '', Str ''TAB'']" "''ABT''"]
    by (simp add: n sortedLetters_def)
qed

text \<open>
  C3. In every consistent cache state, \<open>getNextWords\<close> returns the empty list for a word
  of length at most 3; for a longer word of length \<open>L\<close> the result holds only words of
  length \<open>L - 1\<close>, has no duplicates and is sorted. The result is cached: after the call
  the cache holds the returned list under the word, every other cache entry and the
  solvability memo are as before, and a call in any cache state that holds an entry for
  the word returns that entry and leaves the caches as they are. So calling again
  returns the same list, and so does a call in any other consistent cache state.
\<close>

theorem getNextWords_properties:
  assumes "cache_ok (buildBuckets dict) s"
  shows "case getNextWords (buildBuckets dict) s W of (r, s') \<Rightarrow>
           (length W \<le> 3 \<longrightarrow> r = []) \<and>
           (3 < length W \<longrightarrow>
              (\<forall>x \<in> set r. length x = length W - 1) \<and> distinct r \<and> sorted r) \<and>
           cache_ok (buildBuckets dict) s' \<and>
           nextWordCache s' W = Some r \<and>
           (\<forall>w. w \<noteq> W \<longrightarrow> nextWordCache s' w = nextWordCache s w) \<and>
           solvableMemo s' = solvableMemo s \<and>
           getNextWords (buildBuckets dict) s' W = (r, s') \<and>
           (\<forall>u c. nextWordCache u W = Some c \<longrightarrow>
                    getNextWords (buildBuckets dict) u W = (c, u)) \<and>
           (\<forall>t. cache_ok (buildBuckets dict) t \<longrightarrow>
                  fst (getNextWords (buildBuckets dict) t W) = r)"
proof -
  let ?bk = "buildBuckets dict"
  obtain r s' where g: "getNextWords ?bk s W = (r, s')" by (cases "getNextWords ?bk s W")
  from getNextWords_ok [OF assms, of W] g
  have r: "r = computeNextWords ?bk W" and s': "cache_ok ?bk s'"
    and c: "nextWordCache s' W = Some (computeNextWords ?bk W)"
    and m: "solvableMemo s' = solvableMemo s"
    by simp_all
  have "length x = length W - 1" if "x \<in> set r" for x
    using computeNextWords_length [of x dict W] that r by simp
  moreover have "getNextWords ?bk s' W = (r, s')"
    using c r by (simp add: getNextWords_def)
  moreover have "fst (getNextWords ?bk t W) = r" if "cache_ok ?bk t" for t
    using getNextWords_ok(1) [OF that] r by simp
  moreover have "nextWordCache s' w = nextWordCache s w" if "w \<noteq> W" for w
    using g that by (auto simp: getNextWords_def Let_def split: option.splits)
  moreover have "getNextWords ?bk u W = (c', u)" if "nextWordCache u W = Some c'" for u c'
    using that by (simp add: getNextWords_def)
  ultimately show ?thesis
    using g r s' c m by (simp add: computeNextWords_short computeNextWords_distinct
        computeNextWords_sorted)
qed

theorem getNextWords_properties_witness:
  "cache_ok (buildBuckets example_dict) empty_state \<and>
   fst (getNextWords (buildBuckets example_dict) empty_state ''BANANAS'')
     = [''ANANAS'', ''BANANA''] \<and>
   nextWordCache (snd (getNextWords (buildBuckets example_dict) empty_state ''BANANAS''))
     ''BANANAS'' = Some [''ANANAS'', ''BANANA''] \<and>
   getNextWords (buildBuckets example_dict)
     (snd (getNextWords (buildBuckets example_dict) empty_state ''BANANAS'')) ''BANANAS''
     = ([''ANANAS'', ''BANANA''],
        snd (getNextWords (buildBuckets example_dict) empty_state ''BANANAS'')) \<and>
   getNextWords (buildBuckets example_dict)
     \<lparr>nextWordCache = [''BANANAS'' \<mapsto> [''NAN'']], solvableMemo = Map.empty\<rparr> ''BANANAS''
     = ([''NAN''], \<lparr>nextWordCache = [''BANANAS'' \<mapsto> [''NAN'']], solvableMemo = Map.empty\<rparr>) \<and>
   fst (getNextWords (buildBuckets example_dict) empty_state ''NAN'') = []"
proof -
  let ?bk = "buildBuckets example_dict"
  let ?stale = "\<lparr>nextWordCache = [''BANANAS'' \<mapsto> [''NAN'']], solvableMemo = Map.empty\<rparr>"
  have ok: "cache_ok ?bk empty_state"
    using empty_state_ok by (simp add: engine_ok_def)
  obtain r s' where g: "getNextWords ?bk empty_state ''BANANAS'' = (r, s')"
    by (cases "getNextWords ?bk empty_state ''BANANAS''")
  have r: "r = [''ANANAS'', ''BANANA'']"
    using getNextWords_ok(1) [OF ok, of "''BANANAS''"] g by (simp add: example_nextWords)
  from getNextWords_properties [OF ok, of "''BANANAS''"] g
  have c: "nextWordCache s' ''BANANAS'' = Some r"
    and again: "getNextWords ?bk s' ''BANANAS'' = (r, s')"
    and hit: "\<forall>u c. nextWordCache u ''BANANAS'' = Some c \<longrightarrow>
                 getNextWords ?bk u ''BANANAS'' = (c, u)"
    by simp_all
  have "nextWordCache ?stale ''BANANAS'' = Some [''NAN'']" by simp
  with hit have stale: "getNextWords ?bk ?stale ''BANANAS'' = ([''NAN''], ?stale)" by blast
  have short: "fst (getNextWords ?bk empty_state ''NAN'') = []"
    by (simp add: getNextWords_ok(1) [OF ok] computeNextWords_short)
  from ok g r c again stale short show ?thesis by simp
qed

section \<open>Claims about solvability\<close>

text \<open>
  C4. In every consistent cache state \<open>isSolvable\<close> returns; it returns true for every
  word of length 3; for a word of length above 3 it returns true exactly when
  \<open>getNextWords\<close> of that word holds a word on which \<open>isSolvable\<close> returns true; and the
  answer is the same in any other consistent cache state \<open>t\<close>.
\<close>

theorem isSolvable_characterisation:
  assumes "engine_ok (buildBuckets dict) s" and "engine_ok (buildBuckets dict) t"
  shows "\<exists>v s'. isSolvable (buildBuckets dict) s W = Some (v, s')
           \<and> engine_ok (buildBuckets dict) s'
           \<and> (length W = 3 \<longrightarrow> v)
           \<and> (3 < length W \<longrightarrow>
                (v \<longleftrightarrow> (\<exists>X \<in> set (fst (getNextWords (buildBuckets dict) t W)).
                          \<exists>t'. isSolvable (buildBuckets dict) t X = Some (True, t'))))
           \<and> (\<exists>t'. isSolvable (buildBuckets dict) t W = Some (v, t'))"
proof -
  let ?bk = "buildBuckets dict"
  from isSolvable_ref [OF assms(1), of W]
  obtain s' where 1: "isSolvable ?bk s W = Some (solvable_ref ?bk W, s')"
    and 2: "engine_ok ?bk s'"
    by blast
  from isSolvable_ref [OF assms(2), of W]
  obtain t' where 3: "isSolvable ?bk t W = Some (solvable_ref ?bk W, t')"
    by blast
  have 4: "solvable_ref ?bk W" if "length W = 3"
    using that by (subst solvable_ref_unfold) simp
  have nw: "fst (getNextWords ?bk t W) = computeNextWords ?bk W"
    using assms(2) by (intro getNextWords_ok) (simp add: engine_ok_def)
  have 5: "(\<exists>t'. isSolvable ?bk t X = Some (True, t')) \<longleftrightarrow> solvable_ref ?bk X" for X
    using isSolvable_ref [OF assms(2), of X] by auto
  have 6: "solvable_ref ?bk W \<longleftrightarrow>
      (\<exists>X \<in> set (fst (getNextWords ?bk t W)). \<exists>t'. isSolvable ?bk t X = Some (True, t'))"
    if "3 < length W"
    using that by (subst solvable_ref_unfold) (simp add: nw 5)
  from 1 2 3 4 6 show ?thesis by blast
qed

theorem isSolvable_characterisation_witness:
  "\<exists>s'. isSolvable (buildBuckets example_dict) empty_state ''BANANAS'' = Some (True, s')"
proof -
  have ok: "engine_ok (buildBuckets example_dict) empty_state" by (rule empty_state_ok)
  from isSolvable_characterisation [OF ok ok, of "''BANANAS''"]
  obtain v s' where 1: "isSolvable (buildBuckets example_dict) empty_state ''BANANAS'' = Some (v, s')"
    by blast
  with isSolvable_ref [OF ok, of "''BANANAS''"] example_solvable show ?thesis by auto
qed

section \<open>Claims about the chain builder\<close>

text \<open>
  C1. \<open>buildChain\<close> is a function of the start word, the random source and the random
  source's state alone: in any two consistent cache states it returns, and it returns
  the same chain (or the same absence of one) and leaves the random source in the same
  state.
\<close>

theorem buildChain_deterministic:
  assumes "engine_ok (buildBuckets dict) s1" and "engine_ok (buildBuckets dict) s2"
  shows "\<exists>chain g' s1' s2'.
           buildChain (buildBuckets dict) s1 W random g = Some (chain, s1', g') \<and>
           buildChain (buildBuckets dict) s2 W random g = Some (chain, s2', g') \<and>
           engine_ok (buildBuckets dict) s1' \<and> engine_ok (buildBuckets dict) s2'"
  using dfs_ref_eq [OF assms(1), of random g W] dfs_ref_eq [OF assms(2), of random g W]
  unfolding buildChain_def by blast

theorem buildChain_deterministic_witness:
  "\<exists>s1' s2'.
     buildChain (buildBuckets example_dict) empty_state ''BANANAS'' mulberry32 42
       = Some (Some [''BANANAS'', ''ANANAS'', ''ANANA'', ''NAAN'', ''NAN''], s1', 3663131668) \<and>
     buildChain (buildBuckets example_dict)
       (snd (getNextWords (buildBuckets example_dict) empty_state ''NAAN'')) ''BANANAS'' mulberry32 42
       = Some (Some [''BANANAS'', ''ANANAS'', ''ANANA'', ''NAAN'', ''NAN''], s2', 3663131668)"
proof -
  let ?bk = "buildBuckets example_dict"
  have ok1: "engine_ok ?bk empty_state" by (rule empty_state_ok)
  then have ok2: "engine_ok ?bk (snd (getNextWords ?bk empty_state ''NAAN''))"
    by (rule getNextWords_engine_ok)
  from dfs_ref_eq [OF ok1, of mulberry32 42 "''BANANAS''"]
  obtain s' where "buildChain ?bk empty_state ''BANANAS'' mulberry32 42
       = Some (Some [''BANANAS'', ''ANANAS'', ''ANANA'', ''NAAN'', ''NAN''], s', 3663131668)"
    by (auto simp: buildChain_def example_chain)
  with buildChain_deterministic [OF ok1 ok2, of "''BANANAS''" mulberry32 42]
  show ?thesis by auto
qed

text \<open>
  C2. For every word \<open>W\<close> of 7 letters (a dictionary word in particular) on which
  \<open>isSolvable\<close> returns true, and every random source, \<open>buildChain\<close> returns a chain of
  exactly 5 words that starts with \<open>W\<close>, whose lengths are 7, 6, 5, 4, 3 in that order,
  and in which each word's signature is its predecessor's signature with one character
  removed; the words after \<open>W\<close> are dictionary words.
\<close>

theorem buildChain_shape:
  assumes "engine_ok (buildBuckets dict) s" and "engine_ok (buildBuckets dict) t"
    and "length W = 7"
    and "isSolvable (buildBuckets dict) s W = Some (True, s')"
  shows "\<exists>chain t' g'.
           buildChain (buildBuckets dict) t W random g = Some (Some chain, t', g') \<and>
           length chain = 5 \<and> map length chain = [7, 6, 5, 4, 3] \<and>
           chain_edges chain \<and> hd chain = W \<and> set (tl chain) \<subseteq> set dict"
proof -
  let ?bk = "buildBuckets dict"
  from isSolvable_ref [OF assms(1), of W] assms(4) have sv: "solvable_ref ?bk W" by auto
  then have "fst (dfs_ref ?bk random g W) \<noteq> None"
    unfolding dfs_ref_def by (subst dfs_depth_success) simp_all
  then obtain chain where c: "fst (dfs_ref ?bk random g W) = Some chain" by auto
  from dfs_depth_chain [OF _ c [unfolded dfs_ref_def]] assms(3)
  have sh: "hd chain = W" "chain_edges chain" "map length chain = rev [3..<8]"
    "set (tl chain) \<subseteq> set dict"
    by simp_all
  have "rev [3..<8] = [7, 6, 5, 4, 3 :: nat]"
    by (simp add: upt_rec)
  with sh(3) have ml: "map length chain = [7, 6, 5, 4, 3]" by simp
  then have "length (map length chain) = 5" by simp
  then have l5: "length chain = 5" by simp
  from dfs_ref_eq [OF assms(2), of random g W] c
  obtain t' where "buildChain ?bk t W random g = Some (Some chain, t', snd (dfs_ref ?bk random g W))"
    by (auto simp: buildChain_def)
  with sh ml l5 show ?thesis
    by (intro exI [of _ chain] exI [of _ t'] exI [of _ "snd (dfs_ref ?bk random g W)"]) simp
qed

theorem buildChain_shape_witness:
  "\<exists>t'. buildChain (buildBuckets example_dict) empty_state ''BANANAS'' mulberry32 42
       = Some (Some [''BANANAS'', ''ANANAS'', ''ANANA'', ''NAAN'', ''NAN''], t', 3663131668)
     \<and> map length [''BANANAS'', ''ANANAS'', ''ANANA'', ''NAAN'', ''NAN''] = [7, 6, 5, 4, 3]
     \<and> chain_edges [''BANANAS'', ''ANANAS'', ''ANANA'', ''NAAN'', ''NAN'']"
proof -
  let ?bk = "buildBuckets example_dict"
  have ok: "engine_ok ?bk empty_state" by (rule empty_state_ok)
  from isSolvable_ref [OF ok, of "''BANANAS''"] example_solvable
  obtain s' where sv: "isSolvable ?bk empty_state ''BANANAS'' = Some (True, s')" by auto
  have l: "length ''BANANAS'' = 7" by simp
  from dfs_ref_eq [OF ok, of mulberry32 42 "''BANANAS''"]
  obtain u where b: "buildChain ?bk empty_state ''BANANAS'' mulberry32 42
       = Some (Some [''BANANAS'', ''ANANAS'', ''ANANA'', ''NAAN'', ''NAN''], u, 3663131668)"
    by (auto simp: buildChain_def example_chain)
  from buildChain_shape [OF ok ok l sv, of mulberry32 42] b
  show ?thesis by auto
qed


section \<open>Building the engine\<close>

lemma filter_solvable_ref:
  assumes "engine_ok (buildBuckets dict) s"
  shows "\<exists>s'. filter_solvable (buildBuckets dict) s ws =
               Some (filter (solvable_ref (buildBuckets dict)) ws, s')
             \<and> engine_ok (buildBuckets dict) s'"
  using assms
proof (induction ws arbitrary: s)
  case Nil
  then show ?case by simp
next
  case (Cons w ws)
  from isSolvable_ref [OF Cons.prems, of w]
  obtain s1 where 1: "isSolvable (buildBuckets dict) s w = Some (solvable_ref (buildBuckets dict) w, s1)"
    and s1: "engine_ok (buildBuckets dict) s1"
    by blast
  from Cons.IH [OF s1]
  obtain s2 where 2: "filter_solvable (buildBuckets dict) s1 ws =
      Some (filter (solvable_ref (buildBuckets dict)) ws, s2)"
    and s2: "engine_ok (buildBuckets dict) s2"
    by blast
  from 1 2 s2 show ?case by simp
qed

lemma buildEngine_ref:
  "\<exists>s. engine_ok (buildBuckets (normalize raw)) s \<and>
       buildEngine raw =
         Some (if validSeven (normalize raw) = [] then Inl NoSolvableWords
               else Inr (\<lparr>dictionary = normalize raw,
                          validSevenLetterWords = validSeven (normalize raw),
                          closure_buckets = buildBuckets (normalize raw)\<rparr>, s))"
proof -
  let ?dict = "normalize raw"
  from filter_solvable_ref [OF empty_state_ok, of ?dict "filter (\<lambda>word. length word = 7) ?dict"]
  obtain s where 1: "filter_solvable (buildBuckets ?dict) empty_state
        (filter (\<lambda>word. length word = 7) ?dict) =
      Some (filter (solvable_ref (buildBuckets ?dict)) (filter (\<lambda>word. length word = 7) ?dict), s)"
    and s: "engine_ok (buildBuckets ?dict) s"
    by blast
  show ?thesis
    by (rule exI [of _ s]) (simp add: s buildEngine_def Let_def 1 validSeven_def)
qed

lemma validSeven_set:
  "set (validSeven dict) = {w \<in> set dict. length w = 7 \<and> solvable_ref (buildBuckets dict) w}"
  by (auto simp: validSeven_def)

section \<open>The loop over the dates\<close>

lemma puzzle_for_ref:
  assumes "engine_ok (closure_buckets e) s" and "closure_buckets e = buildBuckets dict"
  shows "\<exists>s'. puzzle_for e s tz sd offset = Some (puzzle_ref e tz sd offset, s')
             \<and> engine_ok (closure_buckets e) s'"
proof -
  let ?ds = "date_at tz sd offset"
  obtain r g where rg: "mulberry32 (stringToSeed ?ds) = (r, g)"
    by (cases "mulberry32 (stringToSeed ?ds)")
  let ?i = "floor_times r (length (validSevenLetterWords e))"
  show ?thesis
  proof (cases "?i < length (validSevenLetterWords e)")
    case False
    with assms(1) rg show ?thesis
      by (simp add: puzzle_for_def puzzle_ref_def date_at_def Let_def)
  next
    case True
    let ?w = "validSevenLetterWords e ! ?i"
    from assms have ok: "engine_ok (buildBuckets dict) s" by simp
    from dfs_ref_eq [OF ok, of mulberry32 g ?w]
    obtain s' where d: "dfs (buildBuckets dict) mulberry32 (s, g) ?w =
        Some (fst (dfs_ref (buildBuckets dict) mulberry32 g ?w), s',
              snd (dfs_ref (buildBuckets dict) mulberry32 g ?w))"
      and s': "engine_ok (buildBuckets dict) s'"
      by blast
    show ?thesis
      using True rg d s' assms(2)
      by (auto simp: puzzle_for_def puzzle_ref_def date_at_def Let_def buildChain_def
          split: option.splits)
  qed
qed

lemma generate_loop_ref:
  assumes "engine_ok (closure_buckets e) s" and "closure_buckets e = buildBuckets dict"
  shows "generate_loop e tz sd days offset s acc =
           Some (collect (map (puzzle_ref e tz sd) [offset..<days]) acc)"
  using assms(1)
proof (induction "days - offset" arbitrary: offset s acc)
  case 0
  then show ?case by (subst generate_loop.simps) simp
next
  case (Suc n)
  then have lt: "offset < days" by simp
  from puzzle_for_ref [OF Suc.prems assms(2), of tz sd offset]
  obtain s' where p: "puzzle_for e s tz sd offset = Some (puzzle_ref e tz sd offset, s')"
    and s': "engine_ok (closure_buckets e) s'"
    by blast
  have up: "[offset..<days] = offset # [Suc offset..<days]"
    using lt by (simp add: upt_conv_Cons)
  show ?case
  proof (cases "puzzle_ref e tz sd offset")
    case (Inl err)
    with lt p up show ?thesis by (subst generate_loop.simps) simp
  next
    case (Inr pz)
    from Suc.hyps(2) have "n = days - Suc offset" by simp
    from Suc.hyps(1) [OF this s']
    have "generate_loop e tz sd days (Suc offset) s' (acc @ [pz]) =
        Some (collect (map (puzzle_ref e tz sd) [Suc offset..<days]) (acc @ [pz]))" .
    with Inr lt p up show ?thesis by (subst generate_loop.simps) simp
  qed
qed

lemma collect_map_Inr: "collect (map Inr qs) acc = Inr (acc @ qs)"
  by (induction qs arbitrary: acc) simp_all

lemma collect_Inr_D:
  "collect rs acc = Inr ps \<Longrightarrow> \<exists>qs. rs = map Inr qs \<and> ps = acc @ qs"
proof (induction rs arbitrary: acc)
  case Nil
  then show ?case by auto
next
  case (Cons r rs)
  show ?case
  proof (cases r)
    case (Inl err)
    with Cons.prems show ?thesis by simp
  next
    case (Inr p)
    with Cons.prems have "collect rs (acc @ [p]) = Inr ps" by simp
    from Cons.IH [OF this] obtain qs where "rs = map Inr qs" "ps = (acc @ [p]) @ qs"
      by auto
    with Inr show ?thesis
      by (intro exI [of _ "p # qs"]) simp
  qed
qed

lemma collect_Inr: "collect rs acc = Inr ps \<longleftrightarrow> (\<exists>qs. rs = map Inr qs \<and> ps = acc @ qs)"
  by (auto simp: collect_map_Inr dest: collect_Inr_D)

lemma collect_Inl:
  "collect rs acc = Inl err \<longleftrightarrow>
     (\<exists>i < length rs. rs ! i = Inl err \<and> (\<forall>j < i. \<exists>p. rs ! j = Inr p))"
proof (induction rs arbitrary: acc)
  case Nil
  then show ?case by simp
next
  case (Cons r rs)
  show ?case
  proof (cases r)
    case (Inl e')
    show ?thesis
    proof
      assume "collect (r # rs) acc = Inl err"
      with Inl have "e' = err" by simp
      with Inl show "\<exists>i < length (r # rs). (r # rs) ! i = Inl err \<and> (\<forall>j < i. \<exists>p. (r # rs) ! j = Inr p)"
        by (intro exI [of _ 0]) simp
    next
      assume "\<exists>i < length (r # rs). (r # rs) ! i = Inl err \<and> (\<forall>j < i. \<exists>p. (r # rs) ! j = Inr p)"
      then obtain i where i: "i < length (r # rs)" "(r # rs) ! i = Inl err"
        "\<forall>j < i. \<exists>p. (r # rs) ! j = Inr p"
        by auto
      have "i = 0"
      proof (rule ccontr)
        assume "i \<noteq> 0"
        with i(3) have "\<exists>p. (r # rs) ! 0 = Inr p" by blast
        with Inl show False by simp
      qed
      with i Inl show "collect (r # rs) acc = Inl err" by simp
    qed
  next
    case (Inr p)
    have "(\<exists>i < length (r # rs). (r # rs) ! i = Inl err \<and> (\<forall>j < i. \<exists>p. (r # rs) ! j = Inr p))
       \<longleftrightarrow> (\<exists>i < length rs. rs ! i = Inl err \<and> (\<forall>j < i. \<exists>p. rs ! j = Inr p))"
      (is "?L \<longleftrightarrow> ?R")
    proof
      assume ?L
      then obtain i where i: "i < length (r # rs)" "(r # rs) ! i = Inl err"
        "\<forall>j < i. \<exists>p. (r # rs) ! j = Inr p"
        by auto
      with Inr obtain i' where i': "i = Suc i'" by (cases i) auto
      have "\<exists>p. rs ! j = Inr p" if "j < i'" for j
        using i(3) [rule_format, of "Suc j"] that i' by simp
      with i i' show ?R by (intro exI [of _ i']) simp
    next
      assume ?R
      then obtain i where i: "i < length rs" "rs ! i = Inl err" "\<forall>j < i. \<exists>p. rs ! j = Inr p"
        by auto
      have "\<exists>q. (r # rs) ! j = Inr q" if "j < Suc i" for j
        using that i(3) Inr by (cases j) auto
      with i show ?L by (intro exI [of _ "Suc i"]) simp
    qed
    with Inr Cons.IH [of "acc @ [p]"] show ?thesis by simp
  qed
qed


section \<open>The seed\<close>

lemma polynomial31_Cons:
  "polynomial31 (c # cs) = of_char c * 31 ^ length cs + polynomial31 cs"
  by (simp add: polynomial31_def sum.lessThan_Suc_shift del: sum.lessThan_Suc)

lemma stringToSeed_loop_poly:
  "seed < 2 ^ 32 \<Longrightarrow>
   stringToSeed_loop v seed = (seed * 31 ^ length v + polynomial31 v) mod 2 ^ 32"
proof (induction v arbitrary: seed)
  case Nil
  then show ?case by (simp add: polynomial31_def)
next
  case (Cons c cs)
  let ?s = "(seed * 31 + of_char c) mod 2 ^ 32"
  have "?s < 2 ^ 32" by simp
  from Cons.IH [OF this]
  have "stringToSeed_loop cs ?s = (?s * 31 ^ length cs + polynomial31 cs) mod 2 ^ 32" .
  also have "\<dots> = ((seed * 31 + of_char c) * 31 ^ length cs + polynomial31 cs) mod 2 ^ 32"
    by (metis mod_add_left_eq mod_mult_left_eq)
  also have "(seed * 31 + of_char c) * 31 ^ length cs + polynomial31 cs
      = seed * 31 ^ length (c # cs) + polynomial31 (c # cs)"
    by (simp add: polynomial31_Cons algebra_simps)
  finally show ?case by simp
qed

lemma stringToSeed_poly: "stringToSeed v = polynomial31 v mod 2 ^ 32"
  unfolding stringToSeed_def by (subst stringToSeed_loop_poly) simp_all

section \<open>Dates\<close>

lemma year_down_le: "TimeFromYear (year_down t y) \<le> t"
proof (induction t y rule: year_down.induct)
  case (1 t y)
  show ?case
  proof (cases "t < TimeFromYear y")
    case True
    with "1.IH" show ?thesis by (subst year_down.simps) simp
  next
    case False
    then show ?thesis by (subst year_down.simps) simp
  qed
qed

lemma year_up_bounds:
  "TimeFromYear y \<le> t \<Longrightarrow>
   TimeFromYear (year_up t y) \<le> t \<and> t < TimeFromYear (year_up t y + 1)"
proof (induction t y rule: year_up.induct)
  case (1 t y)
  show ?case
  proof (cases "TimeFromYear (y + 1) \<le> t")
    case True
    with "1.IH" show ?thesis by (subst (1 2) year_up.simps) simp
  next
    case False
    with "1.prems" show ?thesis by (subst (1 2) year_up.simps) simp
  qed
qed

lemma YearFromTime_bounds:
  "TimeFromYear (YearFromTime t) \<le> t" "t < TimeFromYear (YearFromTime t + 1)"
  using year_up_bounds [OF year_down_le, of t "1970 + (400 * Day t) div 146097"]
  by (simp_all add: YearFromTime_def)

lemma TimeFromYear_mono: "y \<le> z \<Longrightarrow> TimeFromYear y \<le> TimeFromYear z"
proof (induction "nat (z - y)" arbitrary: z)
  case 0
  then show ?case by simp
next
  case (Suc n)
  then have "n = nat (z - 1 - y)" "y \<le> z - 1" by simp_all
  from Suc.hyps(1) [OF this] TimeFromYear_less [of z] show ?case by simp
qed

text \<open>\<open>YearFromTime t\<close> is the largest \<open>y\<close> with \<open>TimeFromYear y \<le> t\<close>.\<close>

lemma YearFromTime_largest: "TimeFromYear y \<le> t \<longleftrightarrow> y \<le> YearFromTime t"
proof
  assume a: "TimeFromYear y \<le> t"
  show "y \<le> YearFromTime t"
  proof (rule ccontr)
    assume "\<not> y \<le> YearFromTime t"
    then have "YearFromTime t + 1 \<le> y" by simp
    from TimeFromYear_mono [OF this] YearFromTime_bounds(2) [of t] a show False by simp
  qed
next
  assume "y \<le> YearFromTime t"
  from TimeFromYear_mono [OF this] YearFromTime_bounds(1) [of t]
  show "TimeFromYear y \<le> t" by simp
qed



lemma MonthFromTime_range: "0 \<le> MonthFromTime t" "MonthFromTime t \<le> 11"
  by (simp_all add: MonthFromTime_def Let_def)

lemma day_identity:
  "Day t = DayFromYear (YearFromTime t)
           + firstDayOfMonth (YearFromTime t) (MonthFromTime t) + DateFromTime t - 1"
  by (simp add: DateFromTime_def firstDayOfMonth_def InLeapYear_def DayWithinYear_def Let_def)

lemma MakeDay_same_month:
  "MakeDay (YearFromTime t) (MonthFromTime t) (DateFromTime t + k) = Day t + k"
proof -
  have "MonthFromTime t div 12 = 0" "MonthFromTime t mod 12 = MonthFromTime t"
    using MonthFromTime_range [of t] by simp_all
  then show ?thesis
    using day_identity [of t] by (simp add: MakeDay_def Let_def)
qed















lemma getLocalDateString_Some:
  "getLocalDateString tz (Some u) =
     date_string (YearFromTime (LocalTime tz u)) (MonthFromTime (LocalTime tz u))
       (DateFromTime (LocalTime tz u))"
  by (simp add: getLocalDateString_def date_string_def getFullYear_def getMonth_def
      getDate_def plus_number_def Let_def)


lemma getLocalDateString_None: "getLocalDateString tz None = ''NaN-NaN-NaN''"
  by (simp add: getLocalDateString_def getFullYear_def getMonth_def getDate_def plus_number_def
      String_of_def padStart_def)

lemma date_at_Some:
  assumes "\<bar>t\<bar> \<le> 8640000000000000"
  shows "date_at tz (Some t) k =
           (let u = UTC tz (requested_time tz t k)
            in if \<bar>u\<bar> > 8640000000000000 then ''NaN-NaN-NaN''
               else date_string (YearFromTime (LocalTime tz u)) (MonthFromTime (LocalTime tz u))
                      (DateFromTime (LocalTime tz u)))"
proof -
  let ?lt = "LocalTime tz t"
  let ?nd = "requested_time tz t k"
  have n: "new_Date (Some t) = Some t"
    using assms by (simp add: new_Date_def TimeClip_def)
  have md: "MakeDate (MakeDay (YearFromTime ?lt) (MonthFromTime ?lt) (DateFromTime ?lt + int k))
              (TimeWithinDay ?lt) = ?nd"
    by (simp add: MakeDay_same_month requested_time_def Let_def)
  have "setDate tz (new_Date (Some t)) (plus_number (getDate tz (Some t)) (int k))
      = TimeClip (UTC tz ?nd)"
    by (simp add: n setDate_def getDate_def plus_number_def Let_def md)
  then show ?thesis
    by (simp add: date_at_def TimeClip_def Let_def getLocalDateString_None
        getLocalDateString_Some)
qed



section \<open>The assembled run\<close>

lemma buildEngine_Inr:
  assumes "buildEngine raw = Some (Inr (e, s))"
  shows "e = \<lparr>dictionary = normalize raw, validSevenLetterWords = validSeven (normalize raw),
              closure_buckets = buildBuckets (normalize raw)\<rparr>"
    and "validSeven (normalize raw) \<noteq> []"
    and "engine_ok (buildBuckets (normalize raw)) s"
  using buildEngine_ref [of raw] assms by (auto split: if_splits)

lemma buildEngine_Inl:
  "buildEngine raw = Some (Inl err) \<longleftrightarrow> err = NoSolvableWords \<and> validSeven (normalize raw) = []"
  using buildEngine_ref [of raw] by (auto split: if_splits)

lemma validSeven_sorted: "sorted (validSeven dict)"
  by (simp add: validSeven_def)

lemma validSeven_distinct: "distinct dict \<Longrightarrow> distinct (validSeven dict)"
  by (simp add: validSeven_def)

lemma generatePuzzles_ref:
  assumes "engine_ok (closure_buckets e) s" and "closure_buckets e = buildBuckets dict"
  shows "generatePuzzles tz sd days e s = Some (collect (map (puzzle_ref e tz sd) [0..<days]) [])"
  unfolding generatePuzzles_def by (rule generate_loop_ref [OF assms])

lemma puzzle_ref_unfold:
  assumes "mulberry32 (stringToSeed (date_at tz sd offset)) = (r, g)"
    and "validSevenLetterWords e \<noteq> []"
  shows "floor_times r (length (validSevenLetterWords e)) < length (validSevenLetterWords e)"
    and "puzzle_ref e tz sd offset =
      (let start = validSevenLetterWords e ! floor_times r (length (validSevenLetterWords e))
       in case fst (dfs_ref (closure_buckets e) mulberry32 g start) of
            None \<Rightarrow> Inl (ChainFailed (date_at tz sd offset) start)
          | Some c \<Rightarrow>
              if length c \<noteq> 5 then Inl (ChainFailed (date_at tz sd offset) start)
              else Inr \<lparr>date = date_at tz sd offset, startWord = start, words = c,
                        solution = \<lparr>six = c ! 1, five = c ! 2,
                                     four = c ! 3, three = c ! 4\<rparr>\<rparr>)"
proof -
  show lt: "floor_times r (length (validSevenLetterWords e)) < length (validSevenLetterWords e)"
    using assms(2) by (intro floor_times_less) simp
  show "puzzle_ref e tz sd offset =
      (let start = validSevenLetterWords e ! floor_times r (length (validSevenLetterWords e))
       in case fst (dfs_ref (closure_buckets e) mulberry32 g start) of
            None \<Rightarrow> Inl (ChainFailed (date_at tz sd offset) start)
          | Some c \<Rightarrow>
              if length c \<noteq> 5 then Inl (ChainFailed (date_at tz sd offset) start)
              else Inr \<lparr>date = date_at tz sd offset, startWord = start, words = c,
                        solution = \<lparr>six = c ! 1, five = c ! 2,
                                     four = c ! 3, three = c ! 4\<rparr>\<rparr>)"
    using assms(1) lt by (simp add: puzzle_ref_def Let_def)
qed

lemma chain_failure_ref:
  assumes "engine_ok (closure_buckets e) s" and "closure_buckets e = buildBuckets dict"
    and "validSevenLetterWords e \<noteq> []"
  shows "chain_failure e s tz sd offset = Some err \<longleftrightarrow> puzzle_ref e tz sd offset = Inl err"
    and "chain_failure e s tz sd offset = None \<longleftrightarrow> (\<exists>p. puzzle_ref e tz sd offset = Inr p)"
proof -
  obtain r g where rg: "mulberry32 (stringToSeed (date_at tz sd offset)) = (r, g)"
    by (cases "mulberry32 (stringToSeed (date_at tz sd offset))")
  let ?w = "validSevenLetterWords e ! floor_times r (length (validSevenLetterWords e))"
  from assms have ok: "engine_ok (buildBuckets dict) s" by simp
  from dfs_ref_eq [OF ok, of mulberry32 g ?w]
  obtain s' where d: "buildChain (closure_buckets e) s ?w mulberry32 g =
        Some (fst (dfs_ref (closure_buckets e) mulberry32 g ?w), s',
              snd (dfs_ref (closure_buckets e) mulberry32 g ?w))"
    by (auto simp: buildChain_def assms(2))
  note u = puzzle_ref_unfold(2) [OF rg assms(3)]
  show "chain_failure e s tz sd offset = Some err \<longleftrightarrow> puzzle_ref e tz sd offset = Inl err"
    unfolding u by (auto simp: chain_failure_def rg d Let_def split: option.splits)
  show "chain_failure e s tz sd offset = None \<longleftrightarrow> (\<exists>p. puzzle_ref e tz sd offset = Inr p)"
    unfolding u by (auto simp: chain_failure_def rg d Let_def split: option.splits)
qed

lemma puzzle_ref_built:
  assumes "closure_buckets e = buildBuckets dict"
    and "validSevenLetterWords e \<noteq> []"
    and "\<And>w. w \<in> set (validSevenLetterWords e) \<Longrightarrow>
           length w = 7 \<and> solvable_ref (buildBuckets dict) w"
    and "mulberry32 (stringToSeed (date_at tz sd offset)) = (r, g)"
  shows "\<exists>c. fst (dfs_ref (closure_buckets e) mulberry32 g
                 (validSevenLetterWords e ! floor_times r (length (validSevenLetterWords e))))
               = Some c \<and> length c = 5 \<and>
             puzzle_ref e tz sd offset =
               Inr \<lparr>date = date_at tz sd offset,
                    startWord = validSevenLetterWords e
                                  ! floor_times r (length (validSevenLetterWords e)),
                    words = c,
                    solution = \<lparr>six = c ! 1, five = c ! 2, four = c ! 3, three = c ! 4\<rparr>\<rparr>"
proof -
  let ?w = "validSevenLetterWords e ! floor_times r (length (validSevenLetterWords e))"
  note u = puzzle_ref_unfold [OF assms(4) assms(2)]
  from u(1) have "?w \<in> set (validSevenLetterWords e)" by simp
  from assms(3) [OF this] have l: "length ?w = 7" and sv: "solvable_ref (buildBuckets dict) ?w"
    by simp_all
  from sv have "fst (dfs_ref (buildBuckets dict) mulberry32 g ?w) \<noteq> None"
    unfolding dfs_ref_def by (subst dfs_depth_success) simp_all
  then obtain c where c: "fst (dfs_ref (buildBuckets dict) mulberry32 g ?w) = Some c" by auto
  from dfs_depth_chain [OF _ c [unfolded dfs_ref_def]] l
  have "map length c = rev [3..<8]" by simp
  then have "length (map length c) = length (rev [3..<8])" by simp
  then have l5: "length c = 5" by simp
  show ?thesis
    using c l5 by (intro exI [of _ c]) (simp add: u(2) assms(1))
qed


lemma isSolvable_empty_iff:
  "(\<exists>t. isSolvable (buildBuckets dict) empty_state w = Some (True, t))
     \<longleftrightarrow> solvable_ref (buildBuckets dict) w"
  using isSolvable_ref [OF empty_state_ok, of dict w] by auto

lemma generatePuzzles_built:
  assumes "buildEngine raw = Some (Inr (e, s))"
  shows "generatePuzzles tz sd days e s =
           Some (Inr (map (\<lambda>offset. projr (puzzle_ref e tz sd offset)) [0..<days]))"
    and "\<exists>p. puzzle_ref e tz sd offset = Inr p"
proof -
  note b = buildEngine_Inr [OF assms]
  let ?dict = "normalize raw"
  have cb: "closure_buckets e = buildBuckets ?dict" and v: "validSevenLetterWords e = validSeven ?dict"
    by (simp_all add: b(1))
  have sv: "length w = 7 \<and> solvable_ref (buildBuckets ?dict) w"
    if "w \<in> set (validSevenLetterWords e)" for w
    using that by (simp add: v validSeven_set)
  have ne: "validSevenLetterWords e \<noteq> []" using b(2) v by simp
  show p: "\<exists>p. puzzle_ref e tz sd offset = Inr p" for offset
  proof -
    obtain r g where rg: "mulberry32 (stringToSeed (date_at tz sd offset)) = (r, g)"
      by (cases "mulberry32 (stringToSeed (date_at tz sd offset))")
    from puzzle_ref_built [OF cb ne sv rg] show ?thesis by blast
  qed
  have ok: "engine_ok (closure_buckets e) s" using b(3) cb by simp
  have "map (puzzle_ref e tz sd) [0..<days]
      = map Inr (map (\<lambda>offset. projr (puzzle_ref e tz sd offset)) [0..<days])"
  proof (rule nth_equalityI)
    show "length (map (puzzle_ref e tz sd) [0..<days])
        = length (map Inr (map (\<lambda>offset. projr (puzzle_ref e tz sd offset)) [0..<days]))"
      by simp
  next
    fix i
    assume "i < length (map (puzzle_ref e tz sd) [0..<days])"
    then have i: "i < days" by simp
    from p [of i] obtain q where "puzzle_ref e tz sd i = Inr q" by blast
    with i show "map (puzzle_ref e tz sd) [0..<days] ! i
        = map Inr (map (\<lambda>offset. projr (puzzle_ref e tz sd offset)) [0..<days]) ! i"
      by simp
  qed
  then show "generatePuzzles tz sd days e s =
           Some (Inr (map (\<lambda>offset. projr (puzzle_ref e tz sd offset)) [0..<days]))"
    unfolding generatePuzzles_ref [OF ok cb] by (simp only: collect_map_Inr append_Nil)
qed


section \<open>The small dictionary and the two time zones, evaluated\<close>

text \<open>The two searches of \<open>YearFromTime\<close> as conditional equations, for evaluation.\<close>

lemma year_down_step: "t < TimeFromYear y \<Longrightarrow> year_down t y = year_down t (y - 1)"
  by (subst year_down.simps) simp

lemma year_down_stop: "\<not> t < TimeFromYear y \<Longrightarrow> year_down t y = y"
  by (subst year_down.simps) simp

lemma year_up_step: "TimeFromYear (y + 1) \<le> t \<Longrightarrow> year_up t y = year_up t (y + 1)"
  by (subst year_up.simps) simp

lemma year_up_stop: "\<not> TimeFromYear (y + 1) \<le> t \<Longrightarrow> year_up t y = y"
  by (subst year_up.simps) simp

lemmas eval_year =
  YearFromTime_def Day_def msPerDay_def year_down_step year_down_stop year_up_step year_up_stop
  TimeFromYear_def DayFromYear_def

lemmas eval_fields =
  MonthFromTime_def DateFromTime_def InLeapYear_def DaysInYear_def DayWithinYear_def
  Day_def msPerDay_def DayFromYear_def Let_def










text \<open>UTC from the midnight of 2024-01-01.\<close>

lemma example_date_0:
  "date_at utc (Some 1704067200000) 0 = ''2024-01-01''"
proof -
  have t: "\<bar>1704067200000 :: int\<bar> \<le> 8640000000000000" by simp
  have r: "requested_time utc 1704067200000 0 = 1704067200000"
    by (simp add: requested_time_def LocalTime_def utc_def Day_def TimeWithinDay_def
        MakeDate_def msPerDay_def Let_def)
  have u: "UTC utc 1704067200000 = 1704067200000"
    by (simp add: UTC_def utc_def)
  have c: "\<not> \<bar>1704067200000 :: int\<bar> > 8640000000000000" by simp
  have l: "LocalTime utc 1704067200000 = 1704067200000"
    by (simp add: LocalTime_def utc_def)
  have y: "YearFromTime 1704067200000 = 2024"
    by (simp add: eval_year)
  have m: "MonthFromTime 1704067200000 = 0"
    by (simp add: y eval_fields split del: if_split)
  have d: "DateFromTime 1704067200000 = 1"
    by (simp add: y m eval_fields split del: if_split)
  have s: "date_string 2024 0 1 = ''2024-01-01''"
    by (simp add: date_string_def String_of_def padStart_def decimal.simps char_of_def bit_0
        split del: if_split)
  show ?thesis
    unfolding date_at_Some [OF t] r u Let_def if_not_P [OF c] l y m d s ..
qed

lemma upt_3: "[0..<3] = [0, 1, 2]"
  by (simp add: upt_rec)


text \<open>UTC from the last midnight within the range of time values.\<close>

lemma last_day_0:
  "date_at utc (Some 8640000000000000) 0 = ''275760-09-13''"
proof -
  have t: "\<bar>8640000000000000 :: int\<bar> \<le> 8640000000000000" by simp
  have r: "requested_time utc 8640000000000000 0 = 8640000000000000"
    by (simp add: requested_time_def LocalTime_def utc_def Day_def TimeWithinDay_def
        MakeDate_def msPerDay_def Let_def)
  have u: "UTC utc 8640000000000000 = 8640000000000000"
    by (simp add: UTC_def utc_def)
  have c: "\<not> \<bar>8640000000000000 :: int\<bar> > 8640000000000000" by simp
  have l: "LocalTime utc 8640000000000000 = 8640000000000000"
    by (simp add: LocalTime_def utc_def)
  have y: "YearFromTime 8640000000000000 = 275760"
    by (simp add: eval_year)
  have m: "MonthFromTime 8640000000000000 = 8"
    by (simp add: y eval_fields split del: if_split)
  have d: "DateFromTime 8640000000000000 = 13"
    by (simp add: y m eval_fields split del: if_split)
  have s: "date_string 275760 8 13 = ''275760-09-13''"
    by (simp add: date_string_def String_of_def padStart_def decimal.simps char_of_def bit_0
        split del: if_split)
  show ?thesis
    unfolding date_at_Some [OF t] r u Let_def if_not_P [OF c] l y m d s ..
qed

lemma last_day_1:
  "date_at utc (Some 8640000000000000) 1 = ''NaN-NaN-NaN''"
proof -
  have t: "\<bar>8640000000000000 :: int\<bar> \<le> 8640000000000000" by simp
  have r: "requested_time utc 8640000000000000 1 = 8640000086400000"
    by (simp add: requested_time_def LocalTime_def utc_def Day_def TimeWithinDay_def
        MakeDate_def msPerDay_def Let_def)
  have u: "UTC utc 8640000086400000 = 8640000086400000"
    by (simp add: UTC_def utc_def)
  have c: "\<bar>8640000086400000 :: int\<bar> > 8640000000000000" by simp
  show ?thesis
    unfolding date_at_Some [OF t] r u Let_def if_P [OF c] ..
qed

lemma last_day_2:
  "date_at utc (Some 8640000000000000) 2 = ''NaN-NaN-NaN''"
proof -
  have t: "\<bar>8640000000000000 :: int\<bar> \<le> 8640000000000000" by simp
  have r: "requested_time utc 8640000000000000 2 = 8640000172800000"
    by (simp add: requested_time_def LocalTime_def utc_def Day_def TimeWithinDay_def
        MakeDate_def msPerDay_def Let_def)
  have u: "UTC utc 8640000172800000 = 8640000172800000"
    by (simp add: UTC_def utc_def)
  have c: "\<bar>8640000172800000 :: int\<bar> > 8640000000000000" by simp
  show ?thesis
    unfolding date_at_Some [OF t] r u Let_def if_P [OF c] ..
qed

lemma example_out_of_range:
  "map (date_at utc (Some 8640000000000000)) [0..<3]
     = [''275760-09-13'', ''NaN-NaN-NaN'', ''NaN-NaN-NaN'']"
  unfolding upt_3 list.map last_day_0 last_day_1 last_day_2 ..

text \<open>The engine built from the small dictionary, and normalization on strings with
  characters beyond ASCII: a no-break space is trimmed, the sharp s becomes \<open>SS\<close>, and
  the upper-cased y with diaeresis is no letter of \<open>A\<close>..\<open>Z\<close>.\<close>

lemma example_normalize: "normalize (map Str example_dict) = example_dict"
  by (simp add: example_dict_def eval_normalize)

lemma example_validSeven: "validSeven example_dict = [''BANANAS'']"
proof -
  have "filter (\<lambda>word. length word = 7) example_dict = [''BANANAS'']"
    by (simp add: example_dict_def)
  then show ?thesis
    by (simp add: validSeven_def example_solvable)
qed

lemma example_buildEngine:
  "\<exists>s. buildEngine (map Str example_dict) =
         Some (Inr (\<lparr>dictionary = example_dict, validSevenLetterWords = [''BANANAS''],
                     closure_buckets = buildBuckets example_dict\<rparr>, s))"
  using buildEngine_ref [of "map Str example_dict"]
  by (auto simp: example_normalize example_validSeven)

lemma example_normalize_latin1:
  "normalize [Str (CHR 0xA0 # ''bat''), Str (''stra'' @ [CHR 0xDF, CHR ''e'']), Str [CHR 0xFF, CHR 0xFF, CHR 0xFF]]
     = [''BAT'', ''STRASSE'']"
  by (simp add: eval_normalize)

lemma example_seed: "stringToSeed ''2024-01-01'' = 3681625664"
  by (simp add: stringToSeed_def)

lemma example_chain_after_pick:
  "mulberry32 3681625664 = ((2925011287408640, 0), 5513191477)
   \<and> floor_times (2925011287408640, 0) (Suc 0) = 0
   \<and> dfs_ref (buildBuckets example_dict) mulberry32 5513191477 ''BANANAS'' =
       (Some [''BANANAS'', ''ANANAS'', ''ANANA'', ''NAAN'', ''NAN''], 9176323103)"
proof -
  have m0: "mulberry32 3681625664 = ((2925011287408640, 0), 5513191477)"
    by (simp add: mulberry32_def round53_def Let_def split del: if_split cong: let_weak_cong)
  have m1: "mulberry32 5513191477 = ((6798170910621696, 0), 7344757290)"
    by (simp add: mulberry32_def round53_def Let_def split del: if_split cong: let_weak_cong)
  have m2: "mulberry32 7344757290 = ((2442680736940032, 0), 9176323103)"
    by (simp add: mulberry32_def round53_def Let_def split del: if_split cong: let_weak_cong)
  have f0: "floor_times (2925011287408640, 0) (Suc 0) = 0"
    by (simp add: floor_times_def round53_def Let_def compute_floorlog
        split del: if_split cong: let_weak_cong)
  have f1: "floor_times (6798170910621696, 0) (Suc (Suc 0)) = Suc 0"
    by (simp add: floor_times_def round53_def Let_def compute_floorlog
        split del: if_split cong: let_weak_cong)
  have f2: "floor_times (2442680736940032, 0) (Suc (Suc 0)) = 0"
    by (simp add: floor_times_def round53_def Let_def compute_floorlog
        split del: if_split cong: let_weak_cong)
  have "dfs_ref (buildBuckets example_dict) mulberry32 5513191477 ''BANANAS'' =
       (Some [''BANANAS'', ''ANANAS'', ''ANANA'', ''NAAN'', ''NAN''], 9176323103)"
    by (simp add: dfs_ref_def example_nextWords shuffled_def swap_def Let_def m0 m1 m2 f0 f1 f2
        split del: if_split cong: let_weak_cong prod.case_cong_weak)
  with m0 f0 show ?thesis by simp
qed

lemma example_no_start_word:
  "validSeven (normalize [Str ''BANANAS'', Str ''ABC'']) = []"
proof -
  have n: "normalize [Str ''BANANAS'', Str ''ABC''] = [''BANANAS'', ''ABC'']"
    by (simp add: eval_normalize)
  have "computeNextWords (buildBuckets [''BANANAS'', ''ABC'']) ''BANANAS'' = []"
    by (simp add: computeNextWords_def buildBuckets_def bucket_push_def
        bucket_get_def sortedLetters_def deletion_step_def set_add_def Let_def)
  then have "\<not> solvable_ref (buildBuckets [''BANANAS'', ''ABC'']) ''BANANAS''"
    by (subst solvable_ref_unfold) simp
  then show ?thesis by (simp add: n validSeven_def)
qed

lemma example_failing_engine:
  "puzzle_ref \<lparr>dictionary = example_dict, validSevenLetterWords = [''ZZZZZZZ''],
               closure_buckets = buildBuckets example_dict\<rparr>
     utc (Some 1704067200000) 0
   = Inl (ChainFailed ''2024-01-01'' ''ZZZZZZZ'')"
proof -
  have m0: "mulberry32 3681625664 = ((2925011287408640, 0), 5513191477)"
    by (simp add: mulberry32_def round53_def Let_def split del: if_split cong: let_weak_cong)
  have f0: "floor_times (2925011287408640, 0) (Suc 0) = 0"
    by (simp add: floor_times_def round53_def Let_def compute_floorlog
        split del: if_split cong: let_weak_cong)
  have nw: "computeNextWords (buildBuckets example_dict) ''ZZZZZZZ'' = []"
    by (simp add: computeNextWords_def example_dict_def buildBuckets_def bucket_push_def
        bucket_get_def sortedLetters_def deletion_step_def set_add_def Let_def)
  have "fst (dfs_ref (buildBuckets example_dict) mulberry32 5513191477 ''ZZZZZZZ'') = None"
    by (simp add: dfs_ref_def nw shuffled_def)
  then show ?thesis
    unfolding puzzle_ref_def example_date_0 Let_def example_seed m0
    by (simp add: f0)
qed

section \<open>Claims about the assembled run\<close>




text \<open>
  C7. \<open>stringToSeed\<close> is the base-31 polynomial of the character codes modulo \<open>2 ^ 32\<close>.
  The start words of a built engine are the 7-letter dictionary words on which
  \<open>isSolvable\<close> returns true, sorted and without duplicates. For every offset below
  \<open>days\<close>, the record's start word is the entry at index \<open>floor(random() * count)\<close> of
  that list, where \<open>random\<close> is \<open>mulberry32\<close> seeded with \<open>stringToSeed\<close> of the record's
  date string, and the record's chain is what \<open>buildChain\<close> returns for that start word
  when the generator continues from the state \<open>g\<close> in which the pick left it.
\<close>

theorem assembler_seed_pick_and_shared_stream:
  assumes "buildEngine raw = Some (Inr (e, s))"
  shows "stringToSeed v = polynomial31 v mod 2 ^ 32
    \<and> sorted (validSevenLetterWords e) \<and> distinct (validSevenLetterWords e)
    \<and> set (validSevenLetterWords e) =
         {w \<in> set (normalize raw). length w = 7 \<and>
            (\<exists>t. isSolvable (closure_buckets e) empty_state w = Some (True, t))}
    \<and> (\<exists>ps. generatePuzzles tz sd days e s = Some (Inr ps) \<and> length ps = days \<and>
          (\<forall>offset < days.
             date (ps ! offset) = date_at tz sd offset \<and>
             (case mulberry32 (stringToSeed (date (ps ! offset))) of (r, g) \<Rightarrow>
                floor_times r (length (validSevenLetterWords e)) < length (validSevenLetterWords e)
                \<and> startWord (ps ! offset) =
                    validSevenLetterWords e ! floor_times r (length (validSevenLetterWords e))
                \<and> (\<exists>s' g'. buildChain (closure_buckets e) s (startWord (ps ! offset)) mulberry32 g
                             = Some (Some (words (ps ! offset)), s', g')))))"
proof -
  note b = buildEngine_Inr [OF assms]
  let ?dict = "normalize raw"
  let ?v = "validSevenLetterWords e"
  have cb: "closure_buckets e = buildBuckets ?dict" and v: "?v = validSeven ?dict"
    by (simp_all add: b(1))
  have sv: "length w = 7 \<and> solvable_ref (buildBuckets ?dict) w" if "w \<in> set ?v" for w
    using that by (simp add: v validSeven_set)
  have ne: "?v \<noteq> []" using b(2) v by simp
  have ok: "engine_ok (buildBuckets ?dict) s" by (rule b(3))
  let ?ps = "map (\<lambda>offset. projr (puzzle_ref e tz sd offset)) [0..<days]"
  have per: "date (?ps ! offset) = date_at tz sd offset \<and>
             (case mulberry32 (stringToSeed (date (?ps ! offset))) of (r, g) \<Rightarrow>
                floor_times r (length ?v) < length ?v
                \<and> startWord (?ps ! offset) = ?v ! floor_times r (length ?v)
                \<and> (\<exists>s' g'. buildChain (closure_buckets e) s (startWord (?ps ! offset)) mulberry32 g
                             = Some (Some (words (?ps ! offset)), s', g')))"
    if off: "offset < days" for offset
  proof -
    obtain r g where rg: "mulberry32 (stringToSeed (date_at tz sd offset)) = (r, g)"
      by (cases "mulberry32 (stringToSeed (date_at tz sd offset))")
    from puzzle_ref_built [OF cb ne sv rg]
    obtain c where c: "fst (dfs_ref (closure_buckets e) mulberry32 g (?v ! floor_times r (length ?v)))
          = Some c"
      and p: "puzzle_ref e tz sd offset =
               Inr \<lparr>date = date_at tz sd offset, startWord = ?v ! floor_times r (length ?v),
                    words = c,
                    solution = \<lparr>six = c ! 1, five = c ! 2, four = c ! 3, three = c ! 4\<rparr>\<rparr>"
      by blast
    from dfs_ref_eq [OF ok, of mulberry32 g "?v ! floor_times r (length ?v)"] c
    obtain s' where "buildChain (closure_buckets e) s (?v ! floor_times r (length ?v)) mulberry32 g
        = Some (Some c, s', snd (dfs_ref (closure_buckets e) mulberry32 g (?v ! floor_times r (length ?v))))"
      by (auto simp: buildChain_def cb)
    then have "\<exists>s' g'. buildChain (closure_buckets e) s (?v ! floor_times r (length ?v)) mulberry32 g
        = Some (Some c, s', g')"
      by blast
    with off p rg puzzle_ref_unfold(1) [OF rg ne] show ?thesis by simp
  qed
  have "set ?v = {w \<in> set ?dict. length w = 7 \<and>
            (\<exists>t. isSolvable (closure_buckets e) empty_state w = Some (True, t))}"
    by (simp add: v cb validSeven_set isSolvable_empty_iff)
  moreover have "sorted ?v" "distinct ?v"
    by (simp_all add: v validSeven_sorted validSeven_distinct normalize_distinct)
  moreover have "\<exists>ps. generatePuzzles tz sd days e s = Some (Inr ps) \<and> length ps = days \<and>
          (\<forall>offset < days.
             date (ps ! offset) = date_at tz sd offset \<and>
             (case mulberry32 (stringToSeed (date (ps ! offset))) of (r, g) \<Rightarrow>
                floor_times r (length ?v) < length ?v
                \<and> startWord (ps ! offset) = ?v ! floor_times r (length ?v)
                \<and> (\<exists>s' g'. buildChain (closure_buckets e) s (startWord (ps ! offset)) mulberry32 g
                             = Some (Some (words (ps ! offset)), s', g'))))"
  proof (intro exI [of _ ?ps] conjI)
    show "generatePuzzles tz sd days e s = Some (Inr ?ps)"
      by (rule generatePuzzles_built(1) [OF assms])
    show "length ?ps = days" by simp
    show "\<forall>offset < days.
             date (?ps ! offset) = date_at tz sd offset \<and>
             (case mulberry32 (stringToSeed (date (?ps ! offset))) of (r, g) \<Rightarrow>
                floor_times r (length ?v) < length ?v
                \<and> startWord (?ps ! offset) = ?v ! floor_times r (length ?v)
                \<and> (\<exists>s' g'. buildChain (closure_buckets e) s (startWord (?ps ! offset)) mulberry32 g
                             = Some (Some (words (?ps ! offset)), s', g')))"
      using per by blast
  qed
  ultimately show ?thesis
    using stringToSeed_poly [of v] by blast
qed


theorem assembler_seed_pick_and_shared_stream_witness:
  "\<exists>e s ps. buildEngine (map Str example_dict) = Some (Inr (e, s)) \<and>
      generatePuzzles utc (Some 1704067200000) 1 e s = Some (Inr ps) \<and>
      validSevenLetterWords e = [''BANANAS''] \<and>
      date (ps ! 0) = ''2024-01-01'' \<and>
      stringToSeed (date (ps ! 0)) = 3681625664 \<and>
      polynomial31 ''2024-01-01'' mod 2 ^ 32 = 3681625664 \<and>
      startWord (ps ! 0) = ''BANANAS'' \<and>
      words (ps ! 0) = [''BANANAS'', ''ANANAS'', ''ANANA'', ''NAAN'', ''NAN'']"
proof -
  let ?sd = "Some (1704067200000 :: int)"
  let ?e = "\<lparr>dictionary = example_dict, validSevenLetterWords = [''BANANAS''],
            closure_buckets = buildBuckets example_dict\<rparr>"
  from example_buildEngine obtain s
    where b: "buildEngine (map Str example_dict) = Some (Inr (?e, s))" by blast
  note t = assembler_seed_pick_and_shared_stream [OF b, of "''2024-01-01''" utc ?sd 1]
  from t [THEN conjunct1] have poly: "polynomial31 ''2024-01-01'' mod 2 ^ 32 = 3681625664"
    by (simp only: example_seed)
  from t [THEN conjunct2, THEN conjunct2, THEN conjunct2, THEN conjunct2]
  obtain ps where g: "generatePuzzles utc ?sd 1 ?e s = Some (Inr ps)"
    and a: "\<forall>offset < 1.
             date (ps ! offset) = date_at utc ?sd offset \<and>
             (case mulberry32 (stringToSeed (date (ps ! offset))) of (r, g) \<Rightarrow>
                floor_times r (length (validSevenLetterWords ?e)) < length (validSevenLetterWords ?e)
                \<and> startWord (ps ! offset) =
                    validSevenLetterWords ?e ! floor_times r (length (validSevenLetterWords ?e))
                \<and> (\<exists>s' g'. buildChain (closure_buckets ?e) s (startWord (ps ! offset)) mulberry32 g
                             = Some (Some (words (ps ! offset)), s', g')))"
    by (elim exE conjE)
  have "(0 :: nat) < 1" by simp
  from a [rule_format, OF this]
  have d: "date (ps ! 0) = date_at utc ?sd 0"
    and c: "case mulberry32 (stringToSeed (date (ps ! 0))) of (r, g) \<Rightarrow>
                floor_times r (length (validSevenLetterWords ?e)) < length (validSevenLetterWords ?e)
                \<and> startWord (ps ! 0) =
                    validSevenLetterWords ?e ! floor_times r (length (validSevenLetterWords ?e))
                \<and> (\<exists>s' g'. buildChain (closure_buckets ?e) s (startWord (ps ! 0)) mulberry32 g
                             = Some (Some (words (ps ! 0)), s', g'))"
    by (rule conjunct1, rule conjunct2)
  from d have d0: "date (ps ! 0) = ''2024-01-01''" by (simp only: example_date_0)
  note x = example_chain_after_pick
  from c have sw: "startWord (ps ! 0) = ''BANANAS''"
    and bc: "\<exists>s' g'. buildChain (buildBuckets example_dict) s ''BANANAS'' mulberry32 5513191477
                             = Some (Some (words (ps ! 0)), s', g')"
    by (auto simp: d0 example_seed x)
  have ok: "engine_ok (buildBuckets example_dict) s"
    using buildEngine_Inr(3) [OF b] by (simp only: example_normalize)
  from dfs_ref_eq [OF ok, of mulberry32 5513191477 "''BANANAS''"] bc
  have w: "words (ps ! 0) = [''BANANAS'', ''ANANAS'', ''ANANA'', ''NAAN'', ''NAN'']"
    by (auto simp: buildChain_def x)
  have sd0: "stringToSeed (date (ps ! 0)) = 3681625664"
    by (simp only: d0 example_seed)
  have v: "validSevenLetterWords ?e = [''BANANAS'']" by simp
  from b g v d0 sd0 poly sw w show ?thesis
    by (intro exI [of _ ?e] exI [of _ s] exI [of _ ps] conjI)
qed

lemma validSeven_empty_iff:
  "validSeven dict = [] \<longleftrightarrow>
     \<not> (\<exists>w \<in> set dict. length w = 7 \<and>
            (\<exists>t. isSolvable (buildBuckets dict) empty_state w = Some (True, t)))"
proof -
  have "validSeven dict = [] \<longleftrightarrow> set (validSeven dict) = {}" by simp
  also have "\<dots> \<longleftrightarrow> \<not> (\<exists>w \<in> set dict. length w = 7 \<and> solvable_ref (buildBuckets dict) w)"
    unfolding validSeven_set by auto
  finally show ?thesis by (simp add: isSolvable_empty_iff)
qed

lemma generatePuzzles_Inl_iff:
  assumes "engine_ok (closure_buckets e) s" and "closure_buckets e = buildBuckets dict"
    and "validSevenLetterWords e \<noteq> []"
  shows "generatePuzzles tz sd days e s = Some (Inl err) \<longleftrightarrow>
           (\<exists>offset < days. chain_failure e s tz sd offset = Some err \<and>
              (\<forall>k < offset. chain_failure e s tz sd k = None))"
proof -
  note cf = chain_failure_ref [OF assms]
  let ?rs = "map (puzzle_ref e tz sd) [0..<days]"
  have "generatePuzzles tz sd days e s = Some (Inl err) \<longleftrightarrow> collect ?rs [] = Inl err"
    by (simp add: generatePuzzles_ref [OF assms(1,2)])
  also have "\<dots> \<longleftrightarrow> (\<exists>i < length ?rs. ?rs ! i = Inl err \<and> (\<forall>j < i. \<exists>p. ?rs ! j = Inr p))"
    by (rule collect_Inl)
  also have "\<dots> \<longleftrightarrow> (\<exists>i < days. puzzle_ref e tz sd i = Inl err \<and>
                        (\<forall>j < i. \<exists>p. puzzle_ref e tz sd j = Inr p))"
    by (auto simp: nth_map)
  also have "\<dots> \<longleftrightarrow> (\<exists>offset < days. chain_failure e s tz sd offset = Some err \<and>
              (\<forall>k < offset. chain_failure e s tz sd k = None))"
    by (simp add: cf)
  finally show ?thesis .
qed

lemma generatePuzzles_Inr_iff:
  assumes "engine_ok (closure_buckets e) s" and "closure_buckets e = buildBuckets dict"
    and "validSevenLetterWords e \<noteq> []"
  shows "(\<exists>ps. generatePuzzles tz sd days e s = Some (Inr ps) \<and> length ps = days) \<longleftrightarrow>
           (\<forall>offset < days. chain_failure e s tz sd offset = None)"
proof -
  note cf = chain_failure_ref [OF assms]
  let ?rs = "map (puzzle_ref e tz sd) [0..<days]"
  have g: "generatePuzzles tz sd days e s = Some (collect ?rs [])"
    by (rule generatePuzzles_ref [OF assms(1,2)])
  show ?thesis
  proof
    assume "\<exists>ps. generatePuzzles tz sd days e s = Some (Inr ps) \<and> length ps = days"
    then obtain ps where "collect ?rs [] = Inr ps" using g by auto
    then obtain qs where qs: "?rs = map Inr qs" by (auto dest: collect_Inr_D)
    show "\<forall>offset < days. chain_failure e s tz sd offset = None"
    proof (intro allI impI)
      fix offset assume o: "offset < days"
      from qs have "?rs ! offset = map Inr qs ! offset" by simp
      moreover from qs have "length qs = days"
        by (metis length_map length_upt diff_zero)
      ultimately have "puzzle_ref e tz sd offset = Inr (qs ! offset)"
        using o by simp
      then show "chain_failure e s tz sd offset = None"
        by (simp add: cf(2))
    qed
  next
    assume a: "\<forall>offset < days. chain_failure e s tz sd offset = None"
    let ?ps = "map (\<lambda>offset. projr (puzzle_ref e tz sd offset)) [0..<days]"
    have "?rs = map Inr ?ps"
    proof (rule nth_equalityI)
      show "length ?rs = length (map Inr ?ps)" by simp
    next
      fix i
      assume "i < length ?rs"
      then have i: "i < days" by simp
      with a have "chain_failure e s tz sd i = None" by simp
      then obtain q where "puzzle_ref e tz sd i = Inr q" by (auto simp: cf(2))
      with i show "?rs ! i = map Inr ?ps ! i" by simp
    qed
    then have "generatePuzzles tz sd days e s = Some (Inr ?ps)"
      unfolding g by (simp only: collect_map_Inr append_Nil)
    then show "\<exists>ps. generatePuzzles tz sd days e s = Some (Inr ps) \<and> length ps = days"
      by (intro exI [of _ ?ps]) simp
  qed
qed

lemma built_engine_never_fails:
  assumes "buildEngine raw = Some (Inr (e, s))"
  shows "chain_failure e s tz sd offset = None"
proof -
  note b = buildEngine_Inr [OF assms]
  have cb: "closure_buckets e = buildBuckets (normalize raw)"
    and ne: "validSevenLetterWords e \<noteq> []"
    using b(2) by (simp_all add: b(1))
  have ok: "engine_ok (closure_buckets e) s" using b(3) cb by simp
  from chain_failure_ref(2) [OF ok cb ne] generatePuzzles_built(2) [OF assms]
  show ?thesis by simp
qed

text \<open>
  C8. The run from the raw word list to the records always returns, either all \<open>days\<close>
  records or an error and no record. It ends in an error in exactly two cases. The first
  is the error of \<open>buildEngine\<close>, raised before any date is processed, exactly when no
  7-letter word of the normalized dictionary is solvable. The second is the error of
  \<open>generatePuzzles\<close>: for an engine over a dictionary's buckets with a non-empty list of
  start words and consistent caches, it is raised exactly when for some date
  \<open>buildChain\<close> returns no chain or a chain of a length other than 5, it carries the
  first such date and its start word, and the records of the other dates are dropped.
\<close>

theorem generation_fails_in_exactly_two_cases:
  "(\<exists>res. main_generate raw tz sd days = Some res)
   \<and> (main_generate raw tz sd days = Some (Inl err) \<longleftrightarrow>
        (err = NoSolvableWords \<and> buildEngine raw = Some (Inl NoSolvableWords))
        \<or> (\<exists>e s. buildEngine raw = Some (Inr (e, s)) \<and>
                   generatePuzzles tz sd days e s = Some (Inl err)))
   \<and> (\<forall>ps. main_generate raw tz sd days = Some (Inr ps) \<longrightarrow> length ps = days)
   \<and> (buildEngine raw = Some (Inl err) \<longleftrightarrow>
        err = NoSolvableWords \<and>
        \<not> (\<exists>w \<in> set (normalize raw). length w = 7 \<and>
              (\<exists>t. isSolvable (buildBuckets (normalize raw)) empty_state w = Some (True, t))))
   \<and> (engine_ok (closure_buckets e) s \<and> closure_buckets e = buildBuckets dict
        \<and> validSevenLetterWords e \<noteq> [] \<longrightarrow>
        (\<exists>res. generatePuzzles tz sd days e s = Some res)
        \<and> (generatePuzzles tz sd days e s = Some (Inl err) \<longleftrightarrow>
             (\<exists>offset < days. chain_failure e s tz sd offset = Some err \<and>
                (\<forall>k < offset. chain_failure e s tz sd k = None)))
        \<and> ((\<exists>ps. generatePuzzles tz sd days e s = Some (Inr ps) \<and> length ps = days) \<longleftrightarrow>
             (\<forall>offset < days. chain_failure e s tz sd offset = None)))"
proof (intro conjI impI)
  obtain s0 where b: "engine_ok (buildBuckets (normalize raw)) s0"
    "buildEngine raw =
         Some (if validSeven (normalize raw) = [] then Inl NoSolvableWords
               else Inr (\<lparr>dictionary = normalize raw,
                          validSevenLetterWords = validSeven (normalize raw),
                          closure_buckets = buildBuckets (normalize raw)\<rparr>, s0))"
    using buildEngine_ref [of raw] by blast
  show "\<exists>res. main_generate raw tz sd days = Some res"
  proof (cases "validSeven (normalize raw) = []")
    case True
    with b(2) show ?thesis by (simp add: main_generate_def)
  next
    case False
    with b(2) obtain e0 where e0: "buildEngine raw = Some (Inr (e0, s0))" by simp
    from generatePuzzles_built(1) [OF e0, of tz sd days] e0 show ?thesis
      by (simp add: main_generate_def)
  qed
  show "main_generate raw tz sd days = Some (Inl err) \<longleftrightarrow>
        (err = NoSolvableWords \<and> buildEngine raw = Some (Inl NoSolvableWords))
        \<or> (\<exists>e s. buildEngine raw = Some (Inr (e, s)) \<and>
                   generatePuzzles tz sd days e s = Some (Inl err))"
    using b(2) by (cases "validSeven (normalize raw) = []") (auto simp: main_generate_def)
  show "\<forall>ps. main_generate raw tz sd days = Some (Inr ps) \<longrightarrow> length ps = days"
  proof (cases "validSeven (normalize raw) = []")
    case True
    with b(2) show ?thesis by (simp add: main_generate_def)
  next
    case False
    with b(2) obtain e0 where e0: "buildEngine raw = Some (Inr (e0, s0))" by simp
    from generatePuzzles_built(1) [OF e0, of tz sd days] e0 show ?thesis
      by (auto simp: main_generate_def)
  qed
  show "buildEngine raw = Some (Inl err) \<longleftrightarrow>
        err = NoSolvableWords \<and>
        \<not> (\<exists>w \<in> set (normalize raw). length w = 7 \<and>
              (\<exists>t. isSolvable (buildBuckets (normalize raw)) empty_state w = Some (True, t)))"
    unfolding buildEngine_Inl validSeven_empty_iff ..
next
  assume a: "engine_ok (closure_buckets e) s \<and> closure_buckets e = buildBuckets dict
        \<and> validSevenLetterWords e \<noteq> []"
  then have ok: "engine_ok (closure_buckets e) s" and cb: "closure_buckets e = buildBuckets dict"
    and ne: "validSevenLetterWords e \<noteq> []"
    by blast+
  show "\<exists>res. generatePuzzles tz sd days e s = Some res"
    by (simp add: generatePuzzles_ref [OF ok cb])
  show "generatePuzzles tz sd days e s = Some (Inl err) \<longleftrightarrow>
             (\<exists>offset < days. chain_failure e s tz sd offset = Some err \<and>
                (\<forall>k < offset. chain_failure e s tz sd k = None))"
    by (rule generatePuzzles_Inl_iff [OF ok cb ne])
  show "(\<exists>ps. generatePuzzles tz sd days e s = Some (Inr ps) \<and> length ps = days) \<longleftrightarrow>
             (\<forall>offset < days. chain_failure e s tz sd offset = None)"
    by (rule generatePuzzles_Inr_iff [OF ok cb ne])
qed

theorem generation_fails_in_exactly_two_cases_witness:
  "main_generate [Str ''BANANAS'', Str ''ABC''] utc (Some 1704067200000) 3
     = Some (Inl NoSolvableWords)
   \<and> generatePuzzles utc (Some 1704067200000) 2
        \<lparr>dictionary = example_dict, validSevenLetterWords = [''ZZZZZZZ''],
          closure_buckets = buildBuckets example_dict\<rparr> empty_state
     = Some (Inl (ChainFailed ''2024-01-01'' ''ZZZZZZZ''))
   \<and> (\<exists>ps. main_generate (map Str example_dict)
              utc (Some 1704067200000) 3 = Some (Inr ps)
            \<and> length ps = 3)"
proof -
  let ?sd = "Some (1704067200000 :: int)"
  let ?bad = "\<lparr>dictionary = example_dict, validSevenLetterWords = [''ZZZZZZZ''],
              closure_buckets = buildBuckets example_dict\<rparr>"
  let ?err = "ChainFailed ''2024-01-01'' ''ZZZZZZZ''"
  have ok: "engine_ok (closure_buckets ?bad) empty_state" by (simp add: empty_state_ok)
  have pre: "engine_ok (closure_buckets ?bad) empty_state
      \<and> closure_buckets ?bad = buildBuckets example_dict \<and> validSevenLetterWords ?bad \<noteq> []"
    using ok by simp
  have cf: "chain_failure ?bad empty_state utc ?sd 0 = Some ?err"
    using chain_failure_ref(1) [OF ok, of example_dict utc ?sd 0 ?err] example_failing_engine
    by simp
  note t1 = generation_fails_in_exactly_two_cases
    [of "[Str ''BANANAS'', Str ''ABC'']" utc ?sd 3 NoSolvableWords ?bad empty_state example_dict]
  note t2 = generation_fails_in_exactly_two_cases
    [of "map Str example_dict" utc ?sd 2 ?err ?bad empty_state example_dict]
  note t3 = generation_fails_in_exactly_two_cases
    [of "map Str example_dict" utc ?sd 3 ?err ?bad empty_state example_dict]
  have b1: "buildEngine [Str ''BANANAS'', Str ''ABC''] = Some (Inl NoSolvableWords)"
    by (simp add: buildEngine_Inl example_no_start_word)
  with t1 [THEN conjunct2, THEN conjunct1]
  have 1: "main_generate [Str ''BANANAS'', Str ''ABC''] utc ?sd 3 = Some (Inl NoSolvableWords)"
    by blast
  from t2 [THEN conjunct2, THEN conjunct2, THEN conjunct2, THEN conjunct2, rule_format, OF pre]
  have "generatePuzzles utc ?sd 2 ?bad empty_state = Some (Inl ?err) \<longleftrightarrow>
             (\<exists>offset < 2. chain_failure ?bad empty_state utc ?sd offset = Some ?err \<and>
                (\<forall>k < offset. chain_failure ?bad empty_state utc ?sd k = None))"
    by (rule conjunct2 [THEN conjunct1])
  moreover have "\<exists>offset < 2. chain_failure ?bad empty_state utc ?sd offset = Some ?err \<and>
                (\<forall>k < offset. chain_failure ?bad empty_state utc ?sd k = None)"
    using cf by (intro exI [of _ 0]) simp
  ultimately have 2: "generatePuzzles utc ?sd 2 ?bad empty_state = Some (Inl ?err)"
    by (rule iffD2)
  from example_buildEngine obtain e s
    where b: "buildEngine (map Str example_dict) = Some (Inr (e, s))" by blast
  from generatePuzzles_built(1) [OF b, of utc ?sd 3] b
  obtain ps where m: "main_generate (map Str example_dict) utc ?sd 3 = Some (Inr ps)"
    by (simp add: main_generate_def)
  from t3 [THEN conjunct2, THEN conjunct2, THEN conjunct1, rule_format, OF m]
  have "length ps = 3" .
  with m have 3: "\<exists>ps. main_generate (map Str example_dict) utc ?sd 3 = Some (Inr ps) \<and> length ps = 3"
    by (intro exI [of _ ps] conjI)
  from 1 2 3 show ?thesis by (intro conjI)
qed

end
